theory Spec2Isabelle
  imports Complex_Main "HOL-Library.Product_Lexorder"
begin

section \<open>AsyncWorker: the cooperative job scheduler of async-worker.js\<close>

text \<open>
  The model follows the first (multi-listener, weighted) implementation in
  \<^verbatim>\<open>src/async-worker.js\<close>.  JavaScript names starting with an underscore are
  written with the prefix \<open>u_\<close>.

  Conventions of the embedding:
  \<^item> JavaScript numbers used as weights and priorities are exact reals (rounding,
    NaN and the infinities are not modelled); counters are natural numbers; timer and
    frame handles are integers, \<open>-1\<close> meaning "none".
  \<^item> A job callable is a function from its argument array and the shared data object
    to an optional thrown error and the data object it leaves behind (a first member
    that is not a function is a callable that always throws).  A listener is a
    function from the event snapshot to its return value and the data object it
    leaves behind.  Callables and listeners do not call back into the scheduler,
    and listeners do not throw.
  \<^item> The host (window and document) is part of the state: the visibility of the
    document, the pending animation-frame and timer callbacks of this worker, and
    the next handle of each kind.
  \<^item> Two fields are observations only: \<open>allocated\<close> numbers the job arrays created by
    \<open>append\<close> (the identity of the array object), and \<open>trace\<close> records every call of a
    job callable with what it threw, every call of \<open>_emit\<close>, and every call of a
    listener with what it returned.
\<close>

subsection \<open>Data\<close>

datatype js_error = Thrown string

datatype js_result = JsFalse | JsUndefined | JsOther

record 'd event =
  eventName :: string
  e_busy :: bool
  e_data :: 'd
  e_interval :: int
  e_jobsComplete :: nat
  e_jobsCount :: nat

record 'd listener =
  lid :: nat
  handler :: "'d event \<Rightarrow> js_result \<times> 'd"

record ('a, 'd) job =
  jid :: nat
  fn :: "'a list \<Rightarrow> 'd \<Rightarrow> js_error option \<times> 'd"
  args :: "'a list"
  weight :: real
  priority :: real

datatype ('a, 'd) effect =
    Applied "('a, 'd) job" "js_error option"
  | Emitted string
  | Notified string nat js_result

record ('a, 'd) world =
  u_error :: "js_error option"
  u_busy :: bool
  u_data :: 'd
  u_eventListener :: "string \<Rightarrow> 'd listener list option"
  u_jobList :: "('a, 'd) job list"
  u_workOnInactive :: bool
  u_interval :: int
  u_jobsComplete :: nat
  u_jobsCount :: nat
  visible :: bool
  listening :: bool
  frames :: "int list"
  timers :: "int list"
  nextFrame :: int
  nextTimer :: int
  allocated :: nat
  trace :: "('a, 'd) effect list"

subsection \<open>The host\<close>

definition requestAnimationFrame :: "('a, 'd) world \<Rightarrow> int \<times> ('a, 'd) world" where
  "requestAnimationFrame s =
     (nextFrame s, s\<lparr>frames := frames s @ [nextFrame s], nextFrame := nextFrame s + 1\<rparr>)"

definition setTimeout :: "('a, 'd) world \<Rightarrow> int \<times> ('a, 'd) world" where
  "setTimeout s =
     (nextTimer s, s\<lparr>timers := timers s @ [nextTimer s], nextTimer := nextTimer s + 1\<rparr>)"

definition cancelAnimationFrame :: "int \<Rightarrow> ('a, 'd) world \<Rightarrow> ('a, 'd) world" where
  "cancelAnimationFrame h s = s\<lparr>frames := removeAll h (frames s)\<rparr>"

definition clearInterval :: "int \<Rightarrow> ('a, 'd) world \<Rightarrow> ('a, 'd) world" where
  "clearInterval h s = s\<lparr>timers := removeAll h (timers s)\<rparr>"

subsection \<open>Construction and property getters\<close>

definition signals :: "string list" where
  "signals = [''start'', ''stop'', ''break'', ''job'', ''framerequest'', ''complete'', ''error'']"

definition u_init :: "bool \<Rightarrow> 'd \<Rightarrow> ('a, 'd) world" where
  "u_init v d =
     \<lparr> u_error = None, u_busy = False, u_data = d, u_eventListener = (\<lambda>_. None),
       u_jobList = [], u_workOnInactive = True, u_interval = -1,
       u_jobsComplete = 0, u_jobsCount = 0,
       visible = v, listening = False, frames = [], timers = [],
       nextFrame = 1, nextTimer = 1, allocated = 0, trace = [] \<rparr>"

definition browserActive :: "('a, 'd) world \<Rightarrow> bool" where
  "browserActive s = (if visible s then True else False)"

definition busy :: "('a, 'd) world \<Rightarrow> bool" where
  "busy s = u_busy s"

definition workOnInactive :: "('a, 'd) world \<Rightarrow> bool" where
  "workOnInactive s = u_workOnInactive s"

definition set_workOnInactive :: "bool \<Rightarrow> ('a, 'd) world \<Rightarrow> ('a, 'd) world" where
  "set_workOnInactive v s = s\<lparr>u_workOnInactive := v\<rparr>"

subsection \<open>Emitting events\<close>

text \<open>
  The snapshot is built once per emission; its \<open>data\<close> member is a reference to the
  shared object, so each listener sees the data as the previous listener left it.
\<close>

fun notify ::
  "string \<Rightarrow> 'd event \<Rightarrow> 'd listener list \<Rightarrow> js_result \<Rightarrow> ('a, 'd) world
     \<Rightarrow> js_result \<times> ('a, 'd) world" where
  "notify name ev [] result s = (result, s)"
| "notify name ev (l # ls) result s =
     (case handler l (ev\<lparr>e_data := u_data s\<rparr>) of
        (r, d) \<Rightarrow>
          notify name ev ls (if r = JsFalse then JsFalse else result)
            (s\<lparr>u_data := d, trace := trace s @ [Notified name (lid l) r]\<rparr>))"

definition u_emit :: "string \<Rightarrow> ('a, 'd) world \<Rightarrow> js_result \<times> ('a, 'd) world" where
  "u_emit name s =
     (case u_eventListener s name of
        None \<Rightarrow> (JsUndefined, s\<lparr>trace := trace s @ [Emitted name]\<rparr>)
      | Some ls \<Rightarrow>
          notify name
            \<lparr> eventName = name, e_busy = busy s, e_data = u_data s,
              e_interval = u_interval s, e_jobsComplete = u_jobsComplete s,
              e_jobsCount = u_jobsCount s \<rparr>
            ls JsUndefined (s\<lparr>trace := trace s @ [Emitted name]\<rparr>))"

subsection \<open>Lifecycle helpers\<close>

definition u_continue :: "('a, 'd) world \<Rightarrow> ('a, 'd) world" where
  "u_continue s =
     (if browserActive s
      then (case requestAnimationFrame s of (h, s') \<Rightarrow> s'\<lparr>u_interval := h\<rparr>)
      else (case setTimeout s of (h, s') \<Rightarrow> s'\<lparr>u_interval := h\<rparr>))"

definition u_stop :: "('a, 'd) world \<Rightarrow> ('a, 'd) world" where
  "u_stop s = snd (u_emit ''stop'' (s\<lparr>u_interval := -1\<rparr>))"

definition u_break :: "('a, 'd) world \<Rightarrow> ('a, 'd) world" where
  "u_break s = snd (u_emit ''break'' (s\<lparr>u_interval := -1\<rparr>))"

definition clear :: "('a, 'd) world \<Rightarrow> ('a, 'd) world" where
  "clear s =
     (let s1 = cancelAnimationFrame (u_interval s) s;
          s2 = clearInterval (u_interval s1) s1;
          s3 = s2\<lparr>listening := False\<rparr>
      in s3\<lparr>u_error := None, u_busy := False, u_interval := -1, u_jobList := [],
            u_jobsComplete := 0, u_jobsCount := length ([] :: ('a, 'd) job list)\<rparr>)"

definition u_complete :: "('a, 'd) world \<Rightarrow> ('a, 'd) world" where
  "u_complete s = clear (snd (u_emit ''complete'' (s\<lparr>u_busy := False, u_interval := -1\<rparr>)))"

definition u_handleVisibilityChange :: "('a, 'd) world \<Rightarrow> ('a, 'd) world" where
  "u_handleVisibilityChange s =
     (if \<not> busy s \<or> browserActive s then s
      else u_continue (clearInterval (u_interval s) (cancelAnimationFrame (u_interval s) s)))"

subsection \<open>The work routine\<close>

definition weightMax :: "('a, 'd) world \<Rightarrow> real" where
  "weightMax s = (if \<not> workOnInactive s \<or> browserActive s then 1 else 25)"

text \<open>
  The first loop of \<open>_worker\<close>: how many jobs at the head of the list fit the budget.
  \<open>index\<close> and \<open>count\<close> start together and advance together, so the read at \<open>index\<close>
  is below the length tested on \<open>count\<close>.
\<close>

function selectLoop ::
  "('a, 'd) job list \<Rightarrow> real \<Rightarrow> real \<Rightarrow> nat \<Rightarrow> nat \<Rightarrow> nat" where
  "selectLoop jl wmax weightTotal index count =
     (if count < length jl then
        (let w = weight (jl ! index) in
         if w + weightTotal > wmax then count
         else selectLoop jl wmax (weightTotal + w) (index + 1) (count + 1))
      else count)"
  by pat_completeness auto
termination
  by (relation "measure (\<lambda>(jl, wmax, weightTotal, index, count). length jl - count)") auto

declare selectLoop.simps [simp del]

text \<open>
  The second loop of \<open>_worker\<close>.  \<open>Returned\<close> is a \<open>return\<close> from inside the loop (the
  error path and a break by a \<open>job\<close> listener); \<open>Finished\<close> is leaving the loop.
\<close>

datatype loop_exit = Returned | Finished

function execLoop ::
  "nat \<Rightarrow> nat \<Rightarrow> real \<Rightarrow> ('a, 'd) world \<Rightarrow> loop_exit \<times> ('a, 'd) world" where
  "execLoop count index weightTotal s =
     (case u_jobList s of
        [] \<Rightarrow> (Finished, s)
      | j # rest \<Rightarrow>
          if index < count then
            (case fn j (args j) (u_data s) of
               (thrown, d) \<Rightarrow>
                 (let s1 = s\<lparr>u_jobList := rest, u_data := d,
                              trace := trace s @ [Applied j thrown]\<rparr> in
                  case thrown of
                    Some e \<Rightarrow>
                      (Returned,
                       snd (u_emit ''error''
                              (s1\<lparr>u_jobList := j # u_jobList s1, u_error := Some e\<rparr>)))
                  | None \<Rightarrow>
                      (case u_emit ''job'' (s1\<lparr>u_jobsComplete := u_jobsComplete s1 + 1\<rparr>) of
                         (r, s3) \<Rightarrow>
                           if r = JsFalse then (Returned, u_break s3)
                           else if browserActive s3 \<and> weightTotal + weight j > 1
                           then (Finished, s3)
                           else execLoop count (index + 1) (weightTotal + weight j) s3)))
          else (Finished, s))"
  by pat_completeness auto
termination
  by (relation "measure (\<lambda>(count, index, weightTotal, s). count - index)") auto

declare execLoop.simps [simp del]

definition u_worker :: "('a, 'd) world \<Rightarrow> ('a, 'd) world" where
  "u_worker s =
     (if \<not> busy s then u_stop s
      else
        (let count = selectLoop (u_jobList s) (weightMax s) 0 0 0 in
         case execLoop count 0 0 s of
           (Returned, s1) \<Rightarrow> s1
         | (Finished, s1) \<Rightarrow>
             (case u_emit ''framerequest'' s1 of
                (r, s2) \<Rightarrow>
                  if r = JsFalse then u_break s2
                  else if u_jobList s2 \<noteq> [] then u_continue s2
                  else u_complete s2)))"

subsection \<open>Public methods\<close>

definition toNumberOr0 :: "real option \<Rightarrow> real" where
  "toNumberOr0 v = (case v of None \<Rightarrow> 0 | Some r \<Rightarrow> if r = 0 then 0 else r)"

text \<open>
  \<open>Array.prototype.sort\<close> is a stable sort (ECMAScript 2019); with the comparator
  \<open>a[3] - b[3]\<close> its result is the stable sort by priority, which \<open>sort_key\<close> computes.
\<close>

definition append ::
  "('a list \<Rightarrow> 'd \<Rightarrow> js_error option \<times> 'd) \<Rightarrow> 'a list option \<Rightarrow> real option \<Rightarrow> real option
     \<Rightarrow> ('a, 'd) world \<Rightarrow> ('a, 'd) world" where
  "append f a w p s =
     (let args' = (case a of None \<Rightarrow> [] | Some xs \<Rightarrow> xs);
          weight0 = toNumberOr0 w;
          priority' = toNumberOr0 p;
          weight' = (if weight0 \<le> 0 \<or> weight0 > 1 then 1 else weight0);
          j = \<lparr> jid = allocated s, fn = f, args = args', weight = weight', priority = priority' \<rparr>
      in s\<lparr>u_jobList := sort_key priority (u_jobList s @ [j]),
            u_jobsCount := u_jobsCount s + 1,
            allocated := allocated s + 1\<rparr>)"

definition start :: "('a, 'd) world \<Rightarrow> ('a, 'd) world" where
  "start s =
     (if busy s then s
      else u_continue (snd (u_emit ''start'' (s\<lparr>listening := True, u_busy := True\<rparr>))))"

definition stop :: "('a, 'd) world \<Rightarrow> ('a, 'd) world" where
  "stop s = (if \<not> busy s then s else s\<lparr>listening := False, u_busy := False\<rparr>)"

definition destroy :: "('a, 'd) world \<Rightarrow> ('a, 'd) world" where
  "destroy s = clear (stop s)"

text \<open>The callback argument is \<open>None\<close> when it is not a function.\<close>

definition addEventListener ::
  "string \<Rightarrow> 'd listener option \<Rightarrow> ('a, 'd) world \<Rightarrow> js_error + ('a, 'd) world" where
  "addEventListener name callback s =
     (if name \<notin> set signals then
        Inl (Thrown (''AsyncWorker: Failed to execute 'addEventListener', the eventName argument must be valid signal (''
               @ ''start,stop,break,job,framerequest,complete,error'' @ '').''))
      else
        (case callback of
           None \<Rightarrow>
             Inl (Thrown ''AsyncWorker: Failed to execute 'addEventListener', the callback argument must be function.'')
         | Some l \<Rightarrow>
             (let ls = (case u_eventListener s name of None \<Rightarrow> [] | Some ls \<Rightarrow> ls)
              in Inr (s\<lparr>u_eventListener := (u_eventListener s)(name \<mapsto> ls @ [l])\<rparr>))))"

definition removeEventListener ::
  "string \<Rightarrow> 'd listener option \<Rightarrow> ('a, 'd) world \<Rightarrow> ('a, 'd) world" where
  "removeEventListener name callback s =
     (case (u_eventListener s name, callback) of
        (Some ls, Some l) \<Rightarrow>
          s\<lparr>u_eventListener := (u_eventListener s)(name \<mapsto> filter (\<lambda>x. lid x \<noteq> lid l) ls)\<rparr>
      | _ \<Rightarrow> s)"

subsection \<open>Runs\<close>

text \<open>
  A run is a sequence of calls of the public methods by the embedding page and of
  callbacks by the host: a pending animation frame or timer firing, and a change of
  the document's visibility.  A call that throws leaves the state as it was.
\<close>

datatype ('a, 'd) call =
    Append "'a list \<Rightarrow> 'd \<Rightarrow> js_error option \<times> 'd" "'a list option" "real option" "real option"
  | Start
  | Stop
  | Clear
  | Destroy
  | AddEventListener string "'d listener option"
  | RemoveEventListener string "'d listener option"
  | SetWorkOnInactive bool
  | AnimationFrame int
  | Timeout int
  | VisibilityChange bool

fun step :: "('a, 'd) call \<Rightarrow> ('a, 'd) world \<Rightarrow> ('a, 'd) world" where
  "step (Append f a w p) s = append f a w p s"
| "step Start s = start s"
| "step Stop s = stop s"
| "step Clear s = clear s"
| "step Destroy s = destroy s"
| "step (AddEventListener name cb) s =
     (case addEventListener name cb s of Inl e \<Rightarrow> s | Inr s' \<Rightarrow> s')"
| "step (RemoveEventListener name cb) s = removeEventListener name cb s"
| "step (SetWorkOnInactive v) s = set_workOnInactive v s"
| "step (AnimationFrame h) s =
     (if h \<in> set (frames s) then u_worker (s\<lparr>frames := removeAll h (frames s)\<rparr>) else s)"
| "step (Timeout h) s =
     (if h \<in> set (timers s) then u_worker (s\<lparr>timers := removeAll h (timers s)\<rparr>) else s)"
| "step (VisibilityChange v) s =
     (if listening s then u_handleVisibilityChange (s\<lparr>visible := v\<rparr>) else s\<lparr>visible := v\<rparr>)"

fun run :: "('a, 'd) call list \<Rightarrow> ('a, 'd) world \<Rightarrow> ('a, 'd) world" where
  "run [] s = s"
| "run (c # cs) s = run cs (step c s)"

subsection \<open>Observations\<close>

text \<open>
  What happened between two states: the effects recorded after the first one; the
  calls of job callables among them, in order, with what each threw.
\<close>

definition during :: "('a, 'd) world \<Rightarrow> ('a, 'd) world \<Rightarrow> ('a, 'd) effect list" where
  "during s s' = drop (length (trace s)) (trace s')"

fun calls :: "('a, 'd) effect list \<Rightarrow> (('a, 'd) job \<times> js_error option) list" where
  "calls [] = []"
| "calls (Applied j thrown # t) = (j, thrown) # calls t"
| "calls (Emitted name # t) = calls t"
| "calls (Notified name l r # t) = calls t"

definition applied :: "('a, 'd) effect list \<Rightarrow> ('a, 'd) job list" where
  "applied t = map fst (calls t)"

text \<open>The listener calls of one emission.\<close>

definition only_notes :: "string \<Rightarrow> ('a, 'd) effect list \<Rightarrow> bool" where
  "only_notes name t = (\<forall>x \<in> set t. \<exists>l r. x = Notified name l r)"

subsection \<open>The budget of the variant with \<open>jobsPerFrameRequest\<close>\<close>


subsection \<open>Example objects\<close>

text \<open>Callables, listeners and a fresh worker in a visible document, for concrete runs.\<close>

definition returns :: "nat list \<Rightarrow> nat \<Rightarrow> js_error option \<times> nat" where
  "returns a d = (None, d + 1)"

definition throws :: "nat list \<Rightarrow> nat \<Rightarrow> js_error option \<times> nat" where
  "throws a d = (Some (Thrown ''boom''), d)"

definition observer :: "nat listener" where
  "observer = \<lparr> lid = 1, handler = (\<lambda>ev. (JsOther, e_data ev)) \<rparr>"

definition veto :: "nat listener" where
  "veto = \<lparr> lid = 2, handler = (\<lambda>ev. (JsFalse, e_data ev)) \<rparr>"

definition fresh :: "(nat, nat) world" where
  "fresh = u_init True 0"

definition listened :: "(nat, nat) call list" where
  "listened = map (\<lambda>name. AddEventListener name (Some observer)) signals"

subsection \<open>What one tick leaves behind\<close>

text \<open>
  The fields that neither loop of \<open>_worker\<close> touches, the effects of a job that ran to
  its end without a veto (\<open>job_item\<close>), and the three ways the second loop can end.
\<close>

definition same_control :: "('a, 'd) world \<Rightarrow> ('a, 'd) world \<Rightarrow> bool" where
  "same_control s s' =
     (u_busy s' = u_busy s \<and> u_eventListener s' = u_eventListener s
      \<and> u_workOnInactive s' = u_workOnInactive s \<and> u_jobsCount s' = u_jobsCount s
      \<and> visible s' = visible s \<and> listening s' = listening s
      \<and> frames s' = frames s \<and> timers s' = timers s
      \<and> nextFrame s' = nextFrame s \<and> nextTimer s' = nextTimer s
      \<and> allocated s' = allocated s)"

fun job_item :: "('a, 'd) effect \<Rightarrow> bool" where
  "job_item (Applied j thrown) = (thrown = None)"
| "job_item (Emitted name) = (name = ''job'')"
| "job_item (Notified name l r) = (name = ''job'' \<and> r \<noteq> JsFalse)"

definition ran :: "('a, 'd) effect list \<Rightarrow> ('a, 'd) job list \<Rightarrow> bool" where
  "ran t done = (list_all job_item t \<and> calls t = map (\<lambda>j. (j, None)) done)"

definition exec_finished ::
  "('a, 'd) world \<Rightarrow> ('a, 'd) world \<Rightarrow> ('a, 'd) job list \<Rightarrow> ('a, 'd) effect list \<Rightarrow> bool" where
  "exec_finished s s' done t =
     (ran t done \<and> u_error s' = u_error s \<and> u_interval s' = u_interval s)"

definition exec_errored ::
  "('a, 'd) world \<Rightarrow> ('a, 'd) world \<Rightarrow> ('a, 'd) job list \<Rightarrow> ('a, 'd) effect list \<Rightarrow> bool" where
  "exec_errored s s' done t =
     (\<exists>j e rest t1 t2. t = t1 @ Applied j (Some e) # Emitted ''error'' # t2
        \<and> ran t1 done \<and> only_notes ''error'' t2
        \<and> u_jobList s' = j # rest \<and> u_error s' = Some e \<and> u_interval s' = u_interval s)"

definition exec_broke ::
  "('a, 'd) world \<Rightarrow> ('a, 'd) world \<Rightarrow> ('a, 'd) job list \<Rightarrow> ('a, 'd) effect list \<Rightarrow> bool" where
  "exec_broke s s' done t =
     (\<exists>t1 l t2 t3. t = t1 @ Notified ''job'' l JsFalse # t2 @ Emitted ''break'' # t3
        \<and> ran t1 done \<and> done \<noteq> [] \<and> only_notes ''job'' t2 \<and> only_notes ''break'' t3
        \<and> u_error s' = u_error s \<and> u_interval s' = -1)"

definition exec_post ::
  "nat \<Rightarrow> nat \<Rightarrow> real \<Rightarrow> ('a, 'd) world \<Rightarrow> loop_exit \<times> ('a, 'd) world \<Rightarrow> bool" where
  "exec_post count index wt s R =
     (\<exists>done t. trace (snd R) = trace s @ t
        \<and> u_jobList s = done @ u_jobList (snd R)
        \<and> u_jobsComplete (snd R) = u_jobsComplete s + length done
        \<and> index + length (calls t) \<le> max index count
        \<and> same_control s (snd R)
        \<and> (if fst R = Finished then exec_finished s (snd R) done t
            else exec_errored s (snd R) done t \<or> exec_broke s (snd R) done t))"

text \<open>
  The effects after the second loop: the \<open>framerequest\<close> emission and what follows it.
  A tick of a busy worker ends in one of three ways: a job threw, a \<open>job\<close> listener
  returned false, or the batch ran to its end.
\<close>

fun tail_item :: "('a, 'd) effect \<Rightarrow> bool" where
  "tail_item (Applied j thrown) = False"
| "tail_item (Emitted name) = (name = ''framerequest'' \<or> name = ''break'' \<or> name = ''complete'')"
| "tail_item (Notified name l r) =
     (name = ''framerequest'' \<or> name = ''break'' \<or> name = ''complete'')"

definition tick_finished ::
  "('a, 'd) world \<Rightarrow> ('a, 'd) world \<Rightarrow> ('a, 'd) job list \<Rightarrow> ('a, 'd) effect list \<Rightarrow> bool" where
  "tick_finished s s' done t =
     ((\<exists>t1 t2. t = t1 @ t2 \<and> ran t1 done \<and> list_all tail_item t2)
      \<and> (u_jobList s' = [] \<and> u_jobsComplete s' = 0 \<and> u_jobsCount s' = 0
          \<or> u_jobsComplete s' = u_jobsComplete s + length done \<and> u_jobsCount s' = u_jobsCount s))"

definition tick_halted ::
  "('a, 'd) world \<Rightarrow> ('a, 'd) world \<Rightarrow> ('a, 'd) job list \<Rightarrow> ('a, 'd) effect list \<Rightarrow> bool" where
  "tick_halted s s' done t =
     ((exec_errored s s' done t \<or> exec_broke s s' done t)
      \<and> same_control s s' \<and> u_jobsComplete s' = u_jobsComplete s + length done)"

definition tick_post :: "('a, 'd) world \<Rightarrow> ('a, 'd) world \<Rightarrow> bool" where
  "tick_post s s' =
     (\<exists>done t. trace s' = trace s @ t
        \<and> u_jobList s = done @ u_jobList s'
        \<and> length (calls t) \<le> selectLoop (u_jobList s) (weightMax s) 0 0 0
        \<and> allocated s' = allocated s \<and> visible s' = visible s
        \<and> u_workOnInactive s' = u_workOnInactive s \<and> u_eventListener s' = u_eventListener s
        \<and> (tick_halted s s' done t \<or> tick_finished s s' done t))"

subsection \<open>The invariant of the queue\<close>

text \<open>
  What holds of the job list and the counters in every state a run can reach: the
  counters account for every job, every queued job has the weight \<open>append\<close> gave it and
  an identity older than the next one, and the list is ordered by priority and, among
  equal priorities, by age.
\<close>

definition same_queue :: "('a, 'd) world \<Rightarrow> ('a, 'd) world \<Rightarrow> bool" where
  "same_queue s s' =
     (u_jobList s' = u_jobList s \<and> u_jobsComplete s' = u_jobsComplete s
      \<and> u_jobsCount s' = u_jobsCount s \<and> allocated s' = allocated s)"

definition wellformed :: "('a, 'd) world \<Rightarrow> bool" where
  "wellformed s =
     (u_jobsComplete s + length (u_jobList s) = u_jobsCount s
      \<and> (\<forall>j \<in> set (u_jobList s). 0 < weight j \<and> weight j \<le> 1 \<and> jid j < allocated s)
      \<and> sorted (map (\<lambda>j. (priority j, jid j)) (u_jobList s)))"

text \<open>A host callback that is pending: calling it runs \<open>_worker\<close>.\<close>

fun fires :: "('a, 'd) call \<Rightarrow> ('a, 'd) world \<Rightarrow> bool" where
  "fires (AnimationFrame h) s = (h \<in> set (frames s))"
| "fires (Timeout h) s = (h \<in> set (timers s))"
| "fires c s = False"

text \<open>
  Jobs of weights 1/2, 1/2 and 1/4 appended to a fresh worker that is then started:
  the first animation frame, handle 1, is pending.
\<close>

definition halves :: "(nat, nat) call list" where
  "halves = [Append returns None (Some (1/2)) None, Append returns None (Some (1/2)) None,
             Append returns None (Some (1/4)) None, Start]"


text \<open>The host callback that the last \<open>_continue\<close> registered.\<close>

definition pendingTick :: "('a, 'd) world \<Rightarrow> ('a, 'd) call" where
  "pendingTick s = (if visible s then AnimationFrame (u_interval s) else Timeout (u_interval s))"

text \<open>
  A \<open>job\<close> listener that vetoes, registered before the jobs of \<open>halves\<close>; and a worker
  whose only job throws.
\<close>

definition vetoed :: "(nat, nat) call list" where
  "vetoed = AddEventListener ''job'' (Some veto) # halves"

definition crash :: "(nat, nat) call list" where
  "crash = [AddEventListener ''error'' (Some observer), Append throws None None None, Start]"

section \<open>Helper lemmas\<close>

subsection \<open>Emissions\<close>

lemma calls_append [simp]: "calls (a @ b) = calls a @ calls b"
  by (induction a rule: calls.induct) simp_all

lemma notes_Nil [simp]: "only_notes name []"
  by (simp add: only_notes_def)

lemma notes_Cons [simp]: "only_notes name (Notified name l r # t) = only_notes name t"
  by (auto simp: only_notes_def)

lemma notes_calls [simp]: "only_notes name t \<Longrightarrow> calls t = []"
  by (induction t rule: calls.induct) (auto simp: only_notes_def)

lemma notify_spec:
  "\<exists>d t. snd (notify name ev ls r s) = s\<lparr>u_data := d, trace := trace s @ t\<rparr>
         \<and> only_notes name t
         \<and> (fst (notify name ev ls r s) = JsFalse \<longleftrightarrow> r = JsFalse \<or> (\<exists>l. Notified name l JsFalse \<in> set t))
         \<and> (fst (notify name ev ls r s) \<noteq> JsFalse \<longrightarrow> fst (notify name ev ls r s) = r)"
proof (induction ls arbitrary: r s)
  case Nil
  show ?case
    by (rule exI[of _ "u_data s"], rule exI[of _ "[]"]) simp
next
  case (Cons l ls)
  obtain r1 d1 where h: "handler l (ev\<lparr>e_data := u_data s\<rparr>) = (r1, d1)"
    by (cases "handler l (ev\<lparr>e_data := u_data s\<rparr>)")
  let ?r = "if r1 = JsFalse then JsFalse else r"
  let ?s1 = "s\<lparr>u_data := d1, trace := trace s @ [Notified name (lid l) r1]\<rparr>"
  have unf: "notify name ev (l # ls) r s = notify name ev ls ?r ?s1"
    using h by simp
  from Cons.IH[of ?r ?s1]
  obtain d t where e: "snd (notify name ev ls ?r ?s1) = ?s1\<lparr>u_data := d, trace := trace ?s1 @ t\<rparr>"
    and t: "only_notes name t"
    and f: "fst (notify name ev ls ?r ?s1) = JsFalse \<longleftrightarrow> ?r = JsFalse \<or> (\<exists>l. Notified name l JsFalse \<in> set t)"
    and g: "fst (notify name ev ls ?r ?s1) \<noteq> JsFalse \<longrightarrow> fst (notify name ev ls ?r ?s1) = ?r"
    by blast
  let ?t = "Notified name (lid l) r1 # t"
  have 1: "snd (notify name ev (l # ls) r s) = s\<lparr>u_data := d, trace := trace s @ ?t\<rparr>"
    using unf e by simp
  have 2: "only_notes name ?t" using t by simp
  have 3: "fst (notify name ev (l # ls) r s) = JsFalse \<longleftrightarrow> r = JsFalse \<or> (\<exists>l. Notified name l JsFalse \<in> set ?t)"
    using unf f by (auto split: if_splits)
  have 4: "fst (notify name ev (l # ls) r s) \<noteq> JsFalse \<longrightarrow> fst (notify name ev (l # ls) r s) = r"
    using unf f g by (auto split: if_splits)
  from 1 2 3 4 show ?case by blast
qed

lemma u_emit_spec:
  "\<exists>d t. snd (u_emit name s) = s\<lparr>u_data := d, trace := trace s @ Emitted name # t\<rparr>
         \<and> only_notes name t
         \<and> (fst (u_emit name s) = JsFalse \<longleftrightarrow> (\<exists>l. Notified name l JsFalse \<in> set t))"
proof (cases "u_eventListener s name")
  case None
  show ?thesis
    by (rule exI[of _ "u_data s"], rule exI[of _ "[]"]) (simp add: u_emit_def None)
next
  case (Some ls)
  let ?ev = "\<lparr> eventName = name, e_busy = busy s, e_data = u_data s,
              e_interval = u_interval s, e_jobsComplete = u_jobsComplete s,
              e_jobsCount = u_jobsCount s \<rparr>"
  let ?s0 = "s\<lparr>trace := trace s @ [Emitted name]\<rparr>"
  have unf: "u_emit name s = notify name ?ev ls JsUndefined ?s0"
    using Some by (simp add: u_emit_def)
  from notify_spec[of name ?ev ls JsUndefined ?s0]
  obtain d t where e: "snd (notify name ?ev ls JsUndefined ?s0) = ?s0\<lparr>u_data := d, trace := trace ?s0 @ t\<rparr>"
    and t: "only_notes name t"
    and f: "fst (notify name ?ev ls JsUndefined ?s0) = JsFalse \<longleftrightarrow> JsUndefined = JsFalse \<or> (\<exists>l. Notified name l JsFalse \<in> set t)"
    by blast
  have 1: "snd (u_emit name s) = s\<lparr>u_data := d, trace := trace s @ Emitted name # t\<rparr>"
    using unf e by simp
  have 3: "fst (u_emit name s) = JsFalse \<longleftrightarrow> (\<exists>l. Notified name l JsFalse \<in> set t)"
    using unf f by simp
  from 1 t 3 show ?thesis by blast
qed

lemma u_emit_fields [simp]:
  "u_error (snd (u_emit name s)) = u_error s"
  "u_busy (snd (u_emit name s)) = u_busy s"
  "u_eventListener (snd (u_emit name s)) = u_eventListener s"
  "u_jobList (snd (u_emit name s)) = u_jobList s"
  "u_workOnInactive (snd (u_emit name s)) = u_workOnInactive s"
  "u_interval (snd (u_emit name s)) = u_interval s"
  "u_jobsComplete (snd (u_emit name s)) = u_jobsComplete s"
  "u_jobsCount (snd (u_emit name s)) = u_jobsCount s"
  "visible (snd (u_emit name s)) = visible s"
  "listening (snd (u_emit name s)) = listening s"
  "frames (snd (u_emit name s)) = frames s"
  "timers (snd (u_emit name s)) = timers s"
  "nextFrame (snd (u_emit name s)) = nextFrame s"
  "nextTimer (snd (u_emit name s)) = nextTimer s"
  "allocated (snd (u_emit name s)) = allocated s"
  using u_emit_spec[of name s] by auto

lemma u_emit_getters [simp]:
  "busy (snd (u_emit name s)) = busy s"
  "browserActive (snd (u_emit name s)) = browserActive s"
  "workOnInactive (snd (u_emit name s)) = workOnInactive s"
  "weightMax (snd (u_emit name s)) = weightMax s"
  by (simp_all add: busy_def browserActive_def workOnInactive_def weightMax_def)

subsection \<open>The second loop, case by case\<close>

lemma execLoop_stop:
  "u_jobList s = [] \<or> \<not> index < count \<Longrightarrow> execLoop count index wt s = (Finished, s)"
  by (subst execLoop.simps) (auto split: list.splits)

lemma execLoop_throw:
  "u_jobList s = j # rest \<Longrightarrow> index < count \<Longrightarrow> fn j (args j) (u_data s) = (Some e, d) \<Longrightarrow>
   execLoop count index wt s =
     (Returned, snd (u_emit ''error''
        (s\<lparr>u_data := d, trace := trace s @ [Applied j (Some e)], u_jobList := j # rest,
           u_error := Some e\<rparr>)))"
  by (subst execLoop.simps) (simp add: Let_def)

lemma execLoop_ok:
  "u_jobList s = j # rest \<Longrightarrow> index < count \<Longrightarrow> fn j (args j) (u_data s) = (None, d) \<Longrightarrow>
   s2 = s\<lparr>u_jobList := rest, u_data := d, trace := trace s @ [Applied j None],
           u_jobsComplete := u_jobsComplete s + 1\<rparr> \<Longrightarrow>
   execLoop count index wt s =
     (if fst (u_emit ''job'' s2) = JsFalse then (Returned, u_break (snd (u_emit ''job'' s2)))
      else if browserActive s2 \<and> wt + weight j > 1 then (Finished, snd (u_emit ''job'' s2))
      else execLoop count (index + 1) (wt + weight j) (snd (u_emit ''job'' s2)))"
  by (subst execLoop.simps) (simp add: Let_def case_prod_beta)

lemma execLoop_cases [case_names Stop Throw Break Early Next]:
  assumes Stop: "\<And>count index wt s.
      u_jobList s = [] \<or> \<not> index < count \<Longrightarrow> P count index wt s (Finished, s)"
    and Throw: "\<And>count index wt s j rest e d.
      u_jobList s = j # rest \<Longrightarrow> index < count \<Longrightarrow> fn j (args j) (u_data s) = (Some e, d) \<Longrightarrow>
      P count index wt s
        (Returned, snd (u_emit ''error''
           (s\<lparr>u_data := d, trace := trace s @ [Applied j (Some e)], u_jobList := j # rest,
              u_error := Some e\<rparr>)))"
    and Break: "\<And>count index wt s j rest d s2.
      u_jobList s = j # rest \<Longrightarrow> index < count \<Longrightarrow> fn j (args j) (u_data s) = (None, d) \<Longrightarrow>
      s2 = s\<lparr>u_jobList := rest, u_data := d, trace := trace s @ [Applied j None],
              u_jobsComplete := u_jobsComplete s + 1\<rparr> \<Longrightarrow>
      fst (u_emit ''job'' s2) = JsFalse \<Longrightarrow>
      P count index wt s (Returned, u_break (snd (u_emit ''job'' s2)))"
    and Early: "\<And>count index wt s j rest d s2.
      u_jobList s = j # rest \<Longrightarrow> index < count \<Longrightarrow> fn j (args j) (u_data s) = (None, d) \<Longrightarrow>
      s2 = s\<lparr>u_jobList := rest, u_data := d, trace := trace s @ [Applied j None],
              u_jobsComplete := u_jobsComplete s + 1\<rparr> \<Longrightarrow>
      fst (u_emit ''job'' s2) \<noteq> JsFalse \<Longrightarrow> browserActive s2 \<and> wt + weight j > 1 \<Longrightarrow>
      P count index wt s (Finished, snd (u_emit ''job'' s2))"
    and Next: "\<And>count index wt s j rest d s2.
      u_jobList s = j # rest \<Longrightarrow> index < count \<Longrightarrow> fn j (args j) (u_data s) = (None, d) \<Longrightarrow>
      s2 = s\<lparr>u_jobList := rest, u_data := d, trace := trace s @ [Applied j None],
              u_jobsComplete := u_jobsComplete s + 1\<rparr> \<Longrightarrow>
      fst (u_emit ''job'' s2) \<noteq> JsFalse \<Longrightarrow> \<not> (browserActive s2 \<and> wt + weight j > 1) \<Longrightarrow>
      P count (index + 1) (wt + weight j) (snd (u_emit ''job'' s2))
        (execLoop count (index + 1) (wt + weight j) (snd (u_emit ''job'' s2))) \<Longrightarrow>
      P count index wt s (execLoop count (index + 1) (wt + weight j) (snd (u_emit ''job'' s2)))"
  shows "P count index wt s (execLoop count index wt s)"
proof (induction "count - index" arbitrary: index wt s)
  case 0
  then have "\<not> index < count" by simp
  then show ?case using Stop[of s index count wt] by (simp add: execLoop_stop)
next
  case (Suc n)
  then have lt: "index < count" by simp
  show ?case
  proof (cases "u_jobList s")
    case Nil
    then show ?thesis using Stop[of s index count wt] by (simp add: execLoop_stop)
  next
    case (Cons j rest)
    obtain thrown d where f: "fn j (args j) (u_data s) = (thrown, d)"
      by (cases "fn j (args j) (u_data s)")
    show ?thesis
    proof (cases thrown)
      case (Some e)
      then show ?thesis
        using Throw[OF Cons lt] f by (simp add: execLoop_throw[OF Cons lt])
    next
      case None
      define s2 where "s2 = s\<lparr>u_jobList := rest, u_data := d, trace := trace s @ [Applied j None],
              u_jobsComplete := u_jobsComplete s + 1\<rparr>"
      note ok = execLoop_ok[OF Cons lt f[unfolded None] s2_def, of wt]
      consider (b) "fst (u_emit ''job'' s2) = JsFalse"
        | (e) "fst (u_emit ''job'' s2) \<noteq> JsFalse" "browserActive s2 \<and> wt + weight j > 1"
        | (n) "fst (u_emit ''job'' s2) \<noteq> JsFalse" "\<not> (browserActive s2 \<and> wt + weight j > 1)"
        by blast
      then show ?thesis
      proof cases
        case b
        then show ?thesis using Break[OF Cons lt f[unfolded None] s2_def] ok by simp
      next
        case e
        then show ?thesis using Early[OF Cons lt f[unfolded None] s2_def] ok by simp
      next
        case n
        have "n = count - (index + 1)" using Suc.hyps(2) by simp
        from Suc.hyps(1)[OF this]
        have "P count (index + 1) (wt + weight j) (snd (u_emit ''job'' s2))
                (execLoop count (index + 1) (wt + weight j) (snd (u_emit ''job'' s2)))" .
        from Next[OF Cons lt f[unfolded None] s2_def n this] show ?thesis using ok n by simp
      qed
    qed
  qed
qed

lemmas host_defs = requestAnimationFrame_def setTimeout_def cancelAnimationFrame_def
  clearInterval_def browserActive_def busy_def workOnInactive_def set_workOnInactive_def

lemmas method_defs = u_emit_def u_continue_def u_stop_def u_break_def clear_def u_complete_def
  u_handleVisibilityChange_def weightMax_def u_worker_def toNumberOr0_def append_def start_def
  stop_def destroy_def addEventListener_def removeEventListener_def signals_def u_init_def

lemma ran_Nil [simp]: "ran [] []"
  by (simp add: ran_def)

lemma ran_step:
  "ran t done \<Longrightarrow> list_all job_item tn \<Longrightarrow> calls tn = [] \<Longrightarrow>
   ran (Applied j None # Emitted ''job'' # tn @ t) (j # done)"
  by (simp add: ran_def)

lemma u_emit_job_ok:
  assumes "fst (u_emit ''job'' s) \<noteq> JsFalse"
  shows "\<exists>d tn. snd (u_emit ''job'' s) = s\<lparr>u_data := d, trace := trace s @ Emitted ''job'' # tn\<rparr>
           \<and> list_all job_item tn \<and> calls tn = []"
proof -
  from u_emit_spec[of "''job''" s] obtain d tn where
    e: "snd (u_emit ''job'' s) = s\<lparr>u_data := d, trace := trace s @ Emitted ''job'' # tn\<rparr>"
    and n: "only_notes ''job'' tn"
    and f: "fst (u_emit ''job'' s) = JsFalse \<longleftrightarrow> (\<exists>l. Notified ''job'' l JsFalse \<in> set tn)"
    by blast
  have la: "list_all job_item tn"
    unfolding list_all_iff
  proof
    fix x assume x: "x \<in> set tn"
    with n obtain l r where xr: "x = Notified ''job'' l r" by (auto simp: only_notes_def)
    with x f assms have "r \<noteq> JsFalse" by auto
    with xr show "job_item x" by simp
  qed
  show ?thesis
    apply (rule exI[of _ d], rule exI[of _ tn])
    using e la notes_calls[OF n] by simp
qed

lemma u_emit_job_veto:
  assumes "fst (u_emit ''job'' s) = JsFalse"
  shows "\<exists>d ta l tb. snd (u_emit ''job'' s) =
             s\<lparr>u_data := d, trace := trace s @ Emitted ''job'' # ta @ Notified ''job'' l JsFalse # tb\<rparr>
           \<and> list_all job_item ta \<and> calls ta = [] \<and> only_notes ''job'' tb"
proof -
  from u_emit_spec[of "''job''" s] obtain d tn where
    e: "snd (u_emit ''job'' s) = s\<lparr>u_data := d, trace := trace s @ Emitted ''job'' # tn\<rparr>"
    and n: "only_notes ''job'' tn"
    and f: "fst (u_emit ''job'' s) = JsFalse \<longleftrightarrow> (\<exists>l. Notified ''job'' l JsFalse \<in> set tn)"
    by blast
  from f assms have "\<exists>x \<in> set tn. \<exists>l. x = Notified ''job'' l JsFalse" by auto
  from split_list_first_prop[OF this] obtain ta x tb where
    sp: "tn = ta @ x # tb" and px: "\<exists>l. x = Notified ''job'' l JsFalse"
    and na: "\<forall>y \<in> set ta. \<not> (\<exists>l. y = Notified ''job'' l JsFalse)"
    by blast
  from px obtain l where xl: "x = Notified ''job'' l JsFalse" by blast
  have na': "only_notes ''job'' ta" and nb: "only_notes ''job'' tb"
    using n sp by (auto simp: only_notes_def)
  have la: "list_all job_item ta"
    unfolding list_all_iff
  proof
    fix y assume y: "y \<in> set ta"
    with na' obtain l' r where yr: "y = Notified ''job'' l' r" by (auto simp: only_notes_def)
    with y na have "r \<noteq> JsFalse" by auto
    with yr show "job_item y" by simp
  qed
  show ?thesis
    apply (rule exI[of _ d], rule exI[of _ ta], rule exI[of _ l], rule exI[of _ tb])
    using e sp xl la notes_calls[OF na'] nb by simp
qed

lemma exec_post_Stop:
  "exec_post count index wt s (Finished, s)"
  unfolding exec_post_def
  by (rule exI[of _ "[]"]) (simp add: same_control_def exec_finished_def)

lemma exec_post_Throw:
  assumes "u_jobList s = j # rest" "index < count"
  shows "exec_post count index wt s
      (Returned, snd (u_emit ''error''
         (s\<lparr>u_data := d, trace := trace s @ [Applied j (Some e)], u_jobList := j # rest,
            u_error := Some e\<rparr>)))"
proof -
  let ?sE = "s\<lparr>u_data := d, trace := trace s @ [Applied j (Some e)], u_jobList := j # rest,
            u_error := Some e\<rparr>"
  from u_emit_spec[of "''error''" ?sE] obtain d' tn where
    e: "snd (u_emit ''error'' ?sE) = ?sE\<lparr>u_data := d', trace := trace ?sE @ Emitted ''error'' # tn\<rparr>"
    and n: "only_notes ''error'' tn"
    by blast
  have err: "exec_errored s (snd (u_emit ''error'' ?sE)) [] (Applied j (Some e) # Emitted ''error'' # tn)"
    unfolding exec_errored_def
    apply (rule exI[of _ j], rule exI[of _ e], rule exI[of _ rest], rule exI[of _ "[]"], rule exI[of _ tn])
    using n by (simp add: e)
  show ?thesis
    unfolding exec_post_def
    apply (rule exI[of _ "[]"], rule exI[of _ "Applied j (Some e) # Emitted ''error'' # tn"])
    using err assms notes_calls[OF n] by (simp add: same_control_def e)
qed

lemma exec_post_Break:
  assumes "u_jobList s = j # rest" "index < count"
    and s2: "s2 = s\<lparr>u_jobList := rest, u_data := d, trace := trace s @ [Applied j None],
              u_jobsComplete := u_jobsComplete s + 1\<rparr>"
    and veto: "fst (u_emit ''job'' s2) = JsFalse"
  shows "exec_post count index wt s (Returned, u_break (snd (u_emit ''job'' s2)))"
proof -
  from u_emit_job_veto[OF veto] obtain d' ta l tb where
    e: "snd (u_emit ''job'' s2) =
          s2\<lparr>u_data := d', trace := trace s2 @ Emitted ''job'' # ta @ Notified ''job'' l JsFalse # tb\<rparr>"
    and a: "list_all job_item ta" "calls ta = []" and b: "only_notes ''job'' tb"
    by blast
  let ?s3 = "snd (u_emit ''job'' s2)"
  from u_emit_spec[of "''break''" "?s3\<lparr>u_interval := -1\<rparr>"] obtain d'' tc where
    e2: "u_break ?s3 = ?s3\<lparr>u_interval := -1, u_data := d'',
            trace := trace ?s3 @ Emitted ''break'' # tc\<rparr>"
    and c: "only_notes ''break'' tc"
    unfolding u_break_def by auto
  let ?t1 = "Applied j None # Emitted ''job'' # ta"
  let ?t = "?t1 @ Notified ''job'' l JsFalse # tb @ Emitted ''break'' # tc"
  have r: "ran ?t1 [j]" using ran_step[OF ran_Nil a, of j] by simp
  have brk: "exec_broke s (u_break ?s3) [j] ?t"
    unfolding exec_broke_def
    apply (rule exI[of _ ?t1], rule exI[of _ l], rule exI[of _ tb], rule exI[of _ tc])
    using r b c by (simp add: e2; simp add: e; simp add: s2)
  show ?thesis
    unfolding exec_post_def
    apply (rule exI[of _ "[j]"], rule exI[of _ ?t])
    using brk assms(1,2) a notes_calls[OF b] notes_calls[OF c]
    by (simp add: same_control_def e2; simp add: e; simp add: s2)
qed

lemma exec_post_Early:
  assumes "u_jobList s = j # rest" "index < count"
    and s2: "s2 = s\<lparr>u_jobList := rest, u_data := d, trace := trace s @ [Applied j None],
              u_jobsComplete := u_jobsComplete s + 1\<rparr>"
    and ok: "fst (u_emit ''job'' s2) \<noteq> JsFalse"
  shows "exec_post count index wt s (Finished, snd (u_emit ''job'' s2))"
proof -
  from u_emit_job_ok[OF ok] obtain d' tn where
    e: "snd (u_emit ''job'' s2) = s2\<lparr>u_data := d', trace := trace s2 @ Emitted ''job'' # tn\<rparr>"
    and a: "list_all job_item tn" "calls tn = []"
    by blast
  let ?t = "Applied j None # Emitted ''job'' # tn"
  have r: "ran ?t [j]" using ran_step[OF ran_Nil a, of j] by simp
  show ?thesis
    unfolding exec_post_def
    apply (rule exI[of _ "[j]"], rule exI[of _ ?t])
    using r assms(1,2) a by (simp add: same_control_def exec_finished_def e; simp add: s2)
qed

lemma exec_post_Next:
  assumes jl: "u_jobList s = j # rest" and lt: "index < count"
    and s2: "s2 = s\<lparr>u_jobList := rest, u_data := d, trace := trace s @ [Applied j None],
              u_jobsComplete := u_jobsComplete s + 1\<rparr>"
    and ok: "fst (u_emit ''job'' s2) \<noteq> JsFalse"
    and IH: "exec_post count (index + 1) wt' (snd (u_emit ''job'' s2)) R"
  shows "exec_post count index wt s R"
proof -
  from u_emit_job_ok[OF ok] obtain d' tn where
    e: "snd (u_emit ''job'' s2) = s2\<lparr>u_data := d', trace := trace s2 @ Emitted ''job'' # tn\<rparr>"
    and a: "list_all job_item tn" "calls tn = []"
    by blast
  let ?s3 = "snd (u_emit ''job'' s2)"
  let ?pre = "Applied j None # Emitted ''job'' # tn"
  from IH obtain done3 t3 where
    tr: "trace (snd R) = trace ?s3 @ t3"
    and jl3: "u_jobList ?s3 = done3 @ u_jobList (snd R)"
    and jc: "u_jobsComplete (snd R) = u_jobsComplete ?s3 + length done3"
    and len: "index + 1 + length (calls t3) \<le> max (index + 1) count"
    and sc: "same_control ?s3 (snd R)"
    and out: "if fst R = Finished then exec_finished ?s3 (snd R) done3 t3
            else exec_errored ?s3 (snd R) done3 t3 \<or> exec_broke ?s3 (snd R) done3 t3"
    unfolding exec_post_def by blast
  have 1: "trace (snd R) = trace s @ (?pre @ t3)" using tr by (simp add: e; simp add: s2)
  have 2: "u_jobList s = (j # done3) @ u_jobList (snd R)" using jl3 jl by (simp add: e; simp add: s2)
  have 3: "u_jobsComplete (snd R) = u_jobsComplete s + length (j # done3)"
    using jc by (simp add: e; simp add: s2)
  have 4: "index + length (calls (?pre @ t3)) \<le> max index count"
    using len lt a by simp
  have 5: "same_control s (snd R)" using sc by (simp add: same_control_def e; simp add: s2)
  have fin: "exec_finished ?s3 (snd R) done3 t3 \<Longrightarrow> exec_finished s (snd R) (j # done3) (?pre @ t3)"
    using ran_step[OF _ a, of t3 done3 j] by (simp add: exec_finished_def e; simp add: s2)
  have err: "exec_errored ?s3 (snd R) done3 t3 \<Longrightarrow> exec_errored s (snd R) (j # done3) (?pre @ t3)"
  proof -
    assume "exec_errored ?s3 (snd R) done3 t3"
    then obtain j' e' rest' t1 t2 where
      h: "t3 = t1 @ Applied j' (Some e') # Emitted ''error'' # t2" "ran t1 done3"
         "only_notes ''error'' t2" "u_jobList (snd R) = j' # rest'" "u_error (snd R) = Some e'"
         "u_interval (snd R) = u_interval ?s3"
      unfolding exec_errored_def by blast
    show ?thesis
      unfolding exec_errored_def
      apply (rule exI[of _ j'], rule exI[of _ e'], rule exI[of _ rest'], rule exI[of _ "?pre @ t1"], rule exI[of _ t2])
      using h ran_step[OF h(2) a, of j] by (simp add: e; simp add: s2)
  qed
  have brk: "exec_broke ?s3 (snd R) done3 t3 \<Longrightarrow> exec_broke s (snd R) (j # done3) (?pre @ t3)"
  proof -
    assume "exec_broke ?s3 (snd R) done3 t3"
    then obtain t1 l t2 t3' where
      h: "t3 = t1 @ Notified ''job'' l JsFalse # t2 @ Emitted ''break'' # t3'" "ran t1 done3"
         "only_notes ''job'' t2" "only_notes ''break'' t3'" "u_error (snd R) = u_error ?s3"
         "u_interval (snd R) = -1"
      unfolding exec_broke_def by blast
    show ?thesis
      unfolding exec_broke_def
      apply (rule exI[of _ "?pre @ t1"], rule exI[of _ l], rule exI[of _ t2], rule exI[of _ t3'])
      using h ran_step[OF h(2) a, of j] by (simp add: e; simp add: s2)
  qed
  show ?thesis
    unfolding exec_post_def
    apply (rule exI[of _ "j # done3"], rule exI[of _ "?pre @ t3"])
    using 1 2 3 4 5 out fin err brk by (auto split: if_splits)
qed

lemma execLoop_post: "exec_post count index wt s (execLoop count index wt s)"
  apply (rule execLoop_cases[of exec_post])
      apply (rule exec_post_Stop)
     apply (erule (1) exec_post_Throw)
    apply (erule (3) exec_post_Break)
   apply (erule (3) exec_post_Early)
  apply (erule (4) exec_post_Next)
  done

subsection \<open>One tick\<close>

lemma notes_tail:
  "only_notes name t \<Longrightarrow> name = ''framerequest'' \<or> name = ''break'' \<or> name = ''complete'' \<Longrightarrow>
   list_all tail_item t"
  by (auto simp: only_notes_def list_all_iff)

lemma tail_calls: "list_all tail_item t \<Longrightarrow> calls t = []"
  by (induction t rule: calls.induct) simp_all

lemma u_break_spec:
  "\<exists>d tc. u_break s = s\<lparr>u_interval := -1, u_data := d, trace := trace s @ Emitted ''break'' # tc\<rparr>
     \<and> only_notes ''break'' tc"
  using u_emit_spec[of "''break''" "s\<lparr>u_interval := -1\<rparr>"] unfolding u_break_def by auto

lemma u_break_fields [simp]:
  "u_error (u_break s) = u_error s"
  "u_busy (u_break s) = u_busy s"
  "u_eventListener (u_break s) = u_eventListener s"
  "u_jobList (u_break s) = u_jobList s"
  "u_workOnInactive (u_break s) = u_workOnInactive s"
  "u_interval (u_break s) = -1"
  "u_jobsComplete (u_break s) = u_jobsComplete s"
  "u_jobsCount (u_break s) = u_jobsCount s"
  "visible (u_break s) = visible s"
  "listening (u_break s) = listening s"
  "frames (u_break s) = frames s"
  "timers (u_break s) = timers s"
  "nextFrame (u_break s) = nextFrame s"
  "nextTimer (u_break s) = nextTimer s"
  "allocated (u_break s) = allocated s"
  by (simp_all add: u_break_def)

lemma u_continue_fields [simp]:
  "trace (u_continue s) = trace s"
  "u_jobList (u_continue s) = u_jobList s"
  "u_jobsComplete (u_continue s) = u_jobsComplete s"
  "u_jobsCount (u_continue s) = u_jobsCount s"
  "allocated (u_continue s) = allocated s"
  "visible (u_continue s) = visible s"
  "u_workOnInactive (u_continue s) = u_workOnInactive s"
  "u_eventListener (u_continue s) = u_eventListener s"
  "u_busy (u_continue s) = u_busy s"
  "u_error (u_continue s) = u_error s"
  "u_data (u_continue s) = u_data s"
  "listening (u_continue s) = listening s"
  by (simp_all add: u_continue_def requestAnimationFrame_def setTimeout_def)

lemma clear_fields [simp]:
  "trace (clear s) = trace s"
  "u_jobList (clear s) = []"
  "u_jobsComplete (clear s) = 0"
  "u_jobsCount (clear s) = 0"
  "allocated (clear s) = allocated s"
  "visible (clear s) = visible s"
  "u_workOnInactive (clear s) = u_workOnInactive s"
  "u_eventListener (clear s) = u_eventListener s"
  "u_busy (clear s) = False"
  "u_error (clear s) = None"
  "u_data (clear s) = u_data s"
  "listening (clear s) = False"
  "u_interval (clear s) = -1"
  "nextFrame (clear s) = nextFrame s"
  "nextTimer (clear s) = nextTimer s"
  "frames (clear s) = removeAll (u_interval s) (frames s)"
  "timers (clear s) = removeAll (u_interval s) (timers s)"
  by (simp_all add: clear_def cancelAnimationFrame_def clearInterval_def Let_def)

lemma u_worker_busy:
  "busy s \<Longrightarrow> u_worker s =
     (let R = execLoop (selectLoop (u_jobList s) (weightMax s) 0 0 0) 0 0 s in
      if fst R = Returned then snd R
      else (let E = u_emit ''framerequest'' (snd R) in
            if fst E = JsFalse then u_break (snd E)
            else if u_jobList (snd E) \<noteq> [] then u_continue (snd E)
            else u_complete (snd E)))"
  by (simp add: u_worker_def Let_def case_prod_beta split: loop_exit.splits)

lemma u_worker_post:
  assumes "busy s"
  shows "tick_post s (u_worker s)"
proof -
  define count where "count = selectLoop (u_jobList s) (weightMax s) 0 0 0"
  define R where "R = execLoop count 0 0 s"
  have "exec_post count 0 0 s R" unfolding R_def by (rule execLoop_post)
  then obtain dn t where
    tr: "trace (snd R) = trace s @ t"
    and jl: "u_jobList s = dn @ u_jobList (snd R)"
    and jc: "u_jobsComplete (snd R) = u_jobsComplete s + length dn"
    and len: "length (calls t) \<le> count"
    and sc: "same_control s (snd R)"
    and out: "if fst R = Finished then exec_finished s (snd R) dn t
            else exec_errored s (snd R) dn t \<or> exec_broke s (snd R) dn t"
    unfolding exec_post_def by auto
  show ?thesis
  proof (cases "fst R")
    case Returned
    then have w: "u_worker s = snd R"
      using assms by (simp add: u_worker_busy count_def R_def Let_def)
    have h: "tick_halted s (snd R) dn t"
      using out Returned sc jc by (simp add: tick_halted_def)
    show ?thesis
      unfolding tick_post_def w
      apply (rule exI[of _ "dn"], rule exI[of _ t])
      using tr jl len h sc by (simp add: count_def same_control_def)
  next
    case Finished
    let ?s1 = "snd R"
    have fin: "ran t dn" "u_error ?s1 = u_error s" "u_interval ?s1 = u_interval s"
      using out Finished by (simp_all add: exec_finished_def)
    from u_emit_spec[of "''framerequest''" ?s1] obtain d tn where
      e: "snd (u_emit ''framerequest'' ?s1) =
            ?s1\<lparr>u_data := d, trace := trace ?s1 @ Emitted ''framerequest'' # tn\<rparr>"
      and n: "only_notes ''framerequest'' tn"
      by blast
    let ?s2 = "snd (u_emit ''framerequest'' ?s1)"
    have tn: "list_all tail_item tn" using notes_tail[OF n] by simp
    have w: "u_worker s =
        (if fst (u_emit ''framerequest'' ?s1) = JsFalse then u_break ?s2
         else if u_jobList ?s2 \<noteq> [] then u_continue ?s2 else u_complete ?s2)"
      using assms Finished by (simp add: u_worker_busy count_def R_def Let_def)
    have tre: "trace ?s2 = trace s @ t @ Emitted ''framerequest'' # tn"
      using e tr by simp
    consider (brk) "u_worker s = u_break ?s2" | (cont) "u_worker s = u_continue ?s2"
      | (comp) "u_worker s = u_complete ?s2" "u_jobList ?s1 = []"
      using w by (auto split: if_splits)
    then show ?thesis
    proof cases
      case brk
      from u_break_spec[of ?s2] obtain d' tc where
        b: "u_break ?s2 = ?s2\<lparr>u_interval := -1, u_data := d',
              trace := trace ?s2 @ Emitted ''break'' # tc\<rparr>"
        and c: "only_notes ''break'' tc" by blast
      have tc: "list_all tail_item tc" using notes_tail[OF c] by simp
      let ?t2 = "Emitted ''framerequest'' # tn @ Emitted ''break'' # tc"
      have trb: "trace (u_break ?s2) = trace s @ t @ ?t2"
        using arg_cong[OF b, of trace] tre by simp
      have f: "tick_finished s (u_break ?s2) dn (t @ ?t2)"
        unfolding tick_finished_def
        apply (rule conjI)
         apply (rule exI[of _ t], rule exI[of _ ?t2])
        using fin tn tc jc sc by (simp_all add: same_control_def)
      show ?thesis
        unfolding tick_post_def brk
        apply (rule exI[of _ dn], rule exI[of _ "t @ ?t2"])
        using trb jl len f sc tail_calls[OF tn] tail_calls[OF tc]
        by (simp add: count_def same_control_def)
    next
      case cont
      let ?t2 = "Emitted ''framerequest'' # tn"
      have f: "tick_finished s (u_continue ?s2) dn (t @ ?t2)"
        unfolding tick_finished_def
        apply (rule conjI)
         apply (rule exI[of _ t], rule exI[of _ ?t2])
        using fin tn jc sc by (simp_all add: same_control_def)
      show ?thesis
        unfolding tick_post_def cont
        apply (rule exI[of _ dn], rule exI[of _ "t @ ?t2"])
        using tre jl len f sc tail_calls[OF tn]
        by (simp add: count_def same_control_def)
    next
      case comp
      let ?s3 = "?s2\<lparr>u_busy := False, u_interval := -1\<rparr>"
      from u_emit_spec[of "''complete''" ?s3] obtain d' tc where
        b: "snd (u_emit ''complete'' ?s3) = ?s3\<lparr>u_data := d',
              trace := trace ?s3 @ Emitted ''complete'' # tc\<rparr>"
        and c: "only_notes ''complete'' tc" by blast
      have tc: "list_all tail_item tc" using notes_tail[OF c] by simp
      let ?t2 = "Emitted ''framerequest'' # tn @ Emitted ''complete'' # tc"
      have trc: "trace (u_complete ?s2) = trace s @ t @ ?t2"
        unfolding u_complete_def using arg_cong[OF b, of trace] tre by simp
      have f: "tick_finished s (u_complete ?s2) dn (t @ ?t2)"
        unfolding tick_finished_def
        apply (rule conjI)
         apply (rule exI[of _ t], rule exI[of _ ?t2])
        using fin tn tc by (simp_all add: u_complete_def)
      show ?thesis
        unfolding tick_post_def comp(1)
        apply (rule exI[of _ dn], rule exI[of _ "t @ ?t2"])
        using trc jl len f sc tail_calls[OF tn] tail_calls[OF tc] comp(2)
        by (simp add: u_complete_def count_def same_control_def)
    qed
  qed
qed

subsection \<open>The queue invariant over runs\<close>

lemma lex_sorted:
  "sorted (map f xs) \<Longrightarrow> (\<And>k. sorted (map h (filter (\<lambda>x. f x = k) xs))) \<Longrightarrow>
   sorted (map (\<lambda>x. (f x, h x)) xs)"
proof (induction xs)
  case Nil
  then show ?case by simp
next
  case (Cons a xs)
  have tl: "sorted (map (\<lambda>x. (f x, h x)) xs)"
  proof (rule Cons.IH)
    show "sorted (map f xs)" using Cons.prems(1) by simp
    fix k
    show "sorted (map h (filter (\<lambda>x. f x = k) xs))"
      using Cons.prems(2)[of k] by (simp split: if_splits)
  qed
  have hd: "(f a, h a) \<le> (f x, h x)" if x: "x \<in> set xs" for x
  proof -
    have le: "f a \<le> f x" using Cons.prems(1) x by simp
    show ?thesis
    proof (cases "f a = f x")
      case True
      have "sorted (map h (a # filter (\<lambda>y. f y = f a) xs))"
        using Cons.prems(2)[of "f a"] by simp
      moreover have "x \<in> set (filter (\<lambda>y. f y = f a) xs)" using x True by simp
      ultimately have "h a \<le> h x" by auto
      with True show ?thesis by (simp add: less_eq_prod_def)
    next
      case False
      with le show ?thesis by (auto simp: less_eq_prod_def)
    qed
  qed
  from tl hd show ?case by auto
qed

lemma lex_sorted_snd:
  "sorted (map (\<lambda>x. (f x, h x)) xs) \<Longrightarrow> (\<And>x. x \<in> set xs \<Longrightarrow> f x = k) \<Longrightarrow> sorted (map h xs)"
  by (induction xs) (auto simp: less_eq_prod_def)

lemma sort_key_append_lex:
  fixes f :: "'x \<Rightarrow> real" and h :: "'x \<Rightarrow> nat"
  assumes s: "sorted (map (\<lambda>x. (f x, h x)) xs)" and y: "\<And>x. x \<in> set xs \<Longrightarrow> h x < h y"
  shows "sorted (map (\<lambda>x. (f x, h x)) (sort_key f (xs @ [y])))"
proof (rule lex_sorted)
  show "sorted (map f (sort_key f (xs @ [y])))" by (rule sorted_sort_key)
  fix k
  have "sorted (map (\<lambda>x. (f x, h x)) (filter (\<lambda>x. f x = k) xs))"
    using s by (rule sorted_filter)
  then have 1: "sorted (map h (filter (\<lambda>x. f x = k) xs))"
    by (rule lex_sorted_snd) simp
  have "sorted (map h (filter (\<lambda>x. f x = k) (xs @ [y])))"
    using 1 y by (auto simp: sorted_append intro: less_imp_le)
  then show "sorted (map h (filter (\<lambda>x. f x = k) (sort_key f (xs @ [y]))))"
    by (simp only: sort_key_stable)
qed

lemma wellformed_init: "wellformed (u_init v d)"
  by (simp add: wellformed_def u_init_def)

lemma wellformed_same: "same_queue s s' \<Longrightarrow> wellformed s \<Longrightarrow> wellformed s'"
  by (simp add: wellformed_def same_queue_def)

lemma wellformed_append: "wellformed s \<Longrightarrow> wellformed (append f a w p s)"
proof -
  assume wf: "wellformed s"
  define j :: "('a, 'b) job" where "j = \<lparr> jid = allocated s, fn = f,
      args = (case a of None \<Rightarrow> [] | Some xs \<Rightarrow> xs),
      weight = (if toNumberOr0 w \<le> 0 \<or> toNumberOr0 w > 1 then 1 else toNumberOr0 w),
      priority = toNumberOr0 p \<rparr>"
  have ap: "append f a w p s = s\<lparr>u_jobList := sort_key priority (u_jobList s @ [j]),
            u_jobsCount := u_jobsCount s + 1, allocated := allocated s + 1\<rparr>"
    by (simp add: append_def j_def Let_def)
  have wj: "0 < weight j \<and> weight j \<le> 1" by (simp add: j_def)
  have "sorted (map (\<lambda>x. (priority x, jid x)) (sort_key priority (u_jobList s @ [j])))"
  proof (rule sort_key_append_lex)
    show "sorted (map (\<lambda>x. (priority x, jid x)) (u_jobList s))" using wf by (simp add: wellformed_def)
    fix x assume "x \<in> set (u_jobList s)"
    then show "jid x < jid j" using wf by (simp add: wellformed_def j_def)
  qed
  then show ?thesis
    using wf wj unfolding ap wellformed_def by (auto simp: j_def)
qed

lemma same_queue_start: "same_queue s (start s)"
  by (simp add: same_queue_def start_def)

lemma same_queue_stop: "same_queue s (stop s)"
  by (simp add: same_queue_def stop_def)

lemma same_queue_u_stop: "same_queue s (u_stop s)"
  by (simp add: same_queue_def u_stop_def)

lemma same_queue_visibility: "same_queue s (u_handleVisibilityChange s)"
  by (simp add: same_queue_def u_handleVisibilityChange_def clearInterval_def
      cancelAnimationFrame_def)

lemma wellformed_clear: "wellformed (clear s)"
  by (simp add: wellformed_def)

lemma wellformed_suffix:
  assumes "wellformed s" "u_jobList s = dn @ u_jobList s'" "allocated s' = allocated s"
    "u_jobsComplete s' + length (u_jobList s') = u_jobsCount s'"
  shows "wellformed s'"
proof -
  have "sorted (map (\<lambda>j. (priority j, jid j)) (dn @ u_jobList s'))"
    using assms(1,2) by (simp add: wellformed_def)
  then have "sorted (map (\<lambda>j. (priority j, jid j)) (u_jobList s'))"
    by (simp add: sorted_append)
  moreover have "set (u_jobList s') \<subseteq> set (u_jobList s)" using assms(2) by auto
  ultimately show ?thesis
    using assms unfolding wellformed_def by auto
qed

lemma wellformed_worker: "wellformed s \<Longrightarrow> wellformed (u_worker s)"
proof (cases "busy s")
  case False
  assume "wellformed s"
  then show ?thesis
    using False wellformed_same[OF same_queue_u_stop] by (simp add: u_worker_def)
next
  case True
  assume wf: "wellformed s"
  from u_worker_post[OF True] obtain dn t where
    jl: "u_jobList s = dn @ u_jobList (u_worker s)"
    and al: "allocated (u_worker s) = allocated s"
    and out: "tick_halted s (u_worker s) dn t \<or> tick_finished s (u_worker s) dn t"
    unfolding tick_post_def by blast
  have "u_jobsComplete (u_worker s) + length (u_jobList (u_worker s)) = u_jobsCount (u_worker s)"
  proof -
    have c: "u_jobsComplete s + (length dn + length (u_jobList (u_worker s))) = u_jobsCount s"
      using wf jl by (simp add: wellformed_def)
    from out show ?thesis
    proof
      assume "tick_halted s (u_worker s) dn t"
      then show ?thesis using c by (simp add: tick_halted_def same_control_def)
    next
      assume "tick_finished s (u_worker s) dn t"
      then show ?thesis using c by (auto simp: tick_finished_def)
    qed
  qed
  with wf jl al show ?thesis by (rule wellformed_suffix)
qed

lemma wellformed_step: "wellformed s \<Longrightarrow> wellformed (step c s)"
proof (cases c)
  case (Append f a w p)
  assume "wellformed s" then show ?thesis using Append by (simp add: wellformed_append)
next
  case Start
  assume "wellformed s" then show ?thesis using Start wellformed_same[OF same_queue_start] by simp
next
  case Stop
  assume "wellformed s" then show ?thesis using Stop wellformed_same[OF same_queue_stop] by simp
next
  case Clear
  then show ?thesis by (simp add: wellformed_clear)
next
  case Destroy
  then show ?thesis by (simp add: wellformed_clear destroy_def)
next
  case (AddEventListener name cb)
  assume "wellformed s" then show ?thesis using AddEventListener
    by (auto simp: addEventListener_def wellformed_def Let_def split: option.splits)
next
  case (RemoveEventListener name cb)
  assume "wellformed s" then show ?thesis using RemoveEventListener
    by (auto simp: removeEventListener_def wellformed_def split: option.splits)
next
  case (SetWorkOnInactive v)
  assume "wellformed s" then show ?thesis using SetWorkOnInactive
    by (simp add: set_workOnInactive_def wellformed_def)
next
  case (AnimationFrame h)
  assume wf: "wellformed s"
  then have "wellformed (s\<lparr>frames := removeAll h (frames s)\<rparr>)" by (simp add: wellformed_def)
  then show ?thesis using AnimationFrame wf by (simp add: wellformed_worker)
next
  case (Timeout h)
  assume wf: "wellformed s"
  then have "wellformed (s\<lparr>timers := removeAll h (timers s)\<rparr>)" by (simp add: wellformed_def)
  then show ?thesis using Timeout wf by (simp add: wellformed_worker)
next
  case (VisibilityChange v)
  assume wf: "wellformed s"
  then have 1: "wellformed (s\<lparr>visible := v\<rparr>)" by (simp add: wellformed_def)
  then show ?thesis using VisibilityChange wellformed_same[OF same_queue_visibility 1] by simp
qed

lemma wellformed_run: "wellformed s \<Longrightarrow> wellformed (run cs s)"
  by (induction cs arbitrary: s) (simp_all add: wellformed_step)

lemmas run_simps = fresh_def returns_def throws_def observer_def veto_def
  method_defs host_defs Let_def selectLoop.simps execLoop.simps

subsection \<open>The first loop and the budget\<close>

lemma selectLoop_ge: "count \<le> selectLoop jl wmax wt index count"
proof (induction jl wmax wt index count rule: selectLoop.induct)
  case (1 jl wmax weightTotal index count)
  show ?case
  proof (cases "count < length jl \<and> \<not> weight (jl ! index) + weightTotal > wmax")
    case True
    then have "count + 1 \<le> selectLoop jl wmax (weightTotal + weight (jl ! index)) (index + 1) (count + 1)"
      using "1.IH"[of "weight (jl ! index)"] by simp
    then show ?thesis using True by (subst selectLoop.simps) (simp add: Let_def)
  next
    case False
    then show ?thesis by (subst selectLoop.simps) (auto simp: Let_def)
  qed
qed


lemma selectLoop_first:
  "jl \<noteq> [] \<Longrightarrow> weight (hd jl) \<le> wmax \<Longrightarrow> 1 \<le> selectLoop jl wmax 0 0 0"
proof -
  assume a: "jl \<noteq> []" "weight (hd jl) \<le> wmax"
  then have "selectLoop jl wmax 0 0 0 = selectLoop jl wmax (0 + weight (jl ! 0)) (0 + 1) (0 + 1)"
    by (subst selectLoop.simps) (simp add: Let_def hd_conv_nth)
  then show ?thesis using selectLoop_ge[of "0 + 1" jl wmax "0 + weight (jl ! 0)" "0 + 1"] by simp
qed

lemma weightMax_pos: "1 \<le> weightMax s"
  by (simp add: weightMax_def)


subsection \<open>The trace of a tick\<close>

lemma during_append: "trace s' = trace s @ t \<Longrightarrow> during s s' = t"
  by (simp add: during_def)

lemma u_stop_trace: "\<exists>t. trace (u_stop s) = trace s @ Emitted ''stop'' # t \<and> only_notes ''stop'' t"
  using u_emit_spec[of "''stop''" "s\<lparr>u_interval := -1\<rparr>"] unfolding u_stop_def by auto

lemma exec_trace: "\<exists>t. trace (snd (execLoop count index wt s)) = trace s @ t"
  using execLoop_post[of count index wt s] unfolding exec_post_def by blast

lemma u_break_trace: "\<exists>t. trace (u_break s) = trace s @ t"
  using u_break_spec[of s] by (metis world.select_convs(17) world.surjective world.update_convs(17))

lemma u_emit_trace: "\<exists>t. trace (snd (u_emit name s)) = trace s @ t"
proof -
  from u_emit_spec[of name s] obtain d t where
    "snd (u_emit name s) = s\<lparr>u_data := d, trace := trace s @ Emitted name # t\<rparr>" by blast
  then have "trace (snd (u_emit name s)) = trace s @ Emitted name # t" by simp
  then show ?thesis by blast
qed

lemma worker_tail_trace:
  assumes "busy s"
  shows "\<exists>t. trace (u_worker s) =
           trace (snd (execLoop (selectLoop (u_jobList s) (weightMax s) 0 0 0) 0 0 s)) @ t"
proof -
  let ?R = "execLoop (selectLoop (u_jobList s) (weightMax s) 0 0 0) 0 0 s"
  let ?s2 = "snd (u_emit ''framerequest'' (snd ?R))"
  from u_emit_trace[of "''framerequest''" "snd ?R"] obtain t1 where
    t1: "trace ?s2 = trace (snd ?R) @ t1" by blast
  from u_break_trace[of ?s2] obtain t2 where t2: "trace (u_break ?s2) = trace ?s2 @ t2" by blast
  from u_emit_trace[of "''complete''" "?s2\<lparr>u_busy := False, u_interval := -1\<rparr>"] obtain t3 where
    t3: "trace (u_complete ?s2) = trace ?s2 @ t3" by (auto simp: u_complete_def)
  have "u_worker s = snd ?R \<or> u_worker s = u_break ?s2 \<or> u_worker s = u_continue ?s2
    \<or> u_worker s = u_complete ?s2"
    using assms by (simp add: u_worker_busy Let_def)
  then consider "u_worker s = snd ?R" | "u_worker s = u_break ?s2" | "u_worker s = u_continue ?s2"
    | "u_worker s = u_complete ?s2"
    by blast
  then show ?thesis
  proof cases
    case 1 then show ?thesis by simp
  next
    case 2 then show ?thesis using t1 t2 by simp
  next
    case 3 then show ?thesis using t1 by simp
  next
    case 4 then show ?thesis using t1 t3 by simp
  qed
qed

lemma exec_first:
  assumes jl: "u_jobList s = j # rest" and lt: "index < count"
  shows "\<exists>thrown t. trace (snd (execLoop count index wt s)) = trace s @ Applied j thrown # t"
proof -
  obtain thrown d where f: "fn j (args j) (u_data s) = (thrown, d)"
    by (cases "fn j (args j) (u_data s)")
  show ?thesis
  proof (cases thrown)
    case (Some e)
    let ?sE = "s\<lparr>u_data := d, trace := trace s @ [Applied j (Some e)], u_jobList := j # rest,
           u_error := Some e\<rparr>"
    from u_emit_trace[of "''error''" ?sE] obtain t where
      "trace (snd (u_emit ''error'' ?sE)) = trace ?sE @ t" by blast
    then have "trace (snd (execLoop count index wt s)) = trace s @ Applied j (Some e) # t"
      using execLoop_throw[OF jl lt f[unfolded Some], of wt] by simp
    then show ?thesis by blast
  next
    case None
    define s2 where "s2 = s\<lparr>u_jobList := rest, u_data := d, trace := trace s @ [Applied j None],
           u_jobsComplete := u_jobsComplete s + 1\<rparr>"
    let ?s3 = "snd (u_emit ''job'' s2)"
    from u_emit_trace[of "''job''" s2] obtain t1 where
      t1: "trace ?s3 = trace s @ Applied j None # t1" by (auto simp: s2_def)
    from u_break_trace[of ?s3] obtain t2 where t2: "trace (u_break ?s3) = trace ?s3 @ t2" by blast
    from exec_trace[of count "index + 1" "wt + weight j" ?s3] obtain t3 where
      t3: "trace (snd (execLoop count (index + 1) (wt + weight j) ?s3)) = trace ?s3 @ t3" by blast
    note ok = execLoop_ok[OF jl lt f[unfolded None] s2_def, of wt]
    consider "snd (execLoop count index wt s) = u_break ?s3"
      | "snd (execLoop count index wt s) = ?s3"
      | "snd (execLoop count index wt s) = snd (execLoop count (index + 1) (wt + weight j) ?s3)"
      using ok by (auto split: if_splits)
    then show ?thesis
    proof cases
      case 1 then show ?thesis using t1 t2 by simp
    next
      case 2 then show ?thesis using t1 by simp
    next
      case 3 then show ?thesis using t1 t3 by simp
    qed
  qed
qed

lemma worker_first:
  assumes "busy s" "u_jobList s = j # rest" "weight j \<le> weightMax s"
  shows "\<exists>thrown t. during s (u_worker s) = Applied j thrown # t"
proof -
  have "1 \<le> selectLoop (u_jobList s) (weightMax s) 0 0 0"
    using assms(2,3) by (intro selectLoop_first) simp_all
  then have "0 < selectLoop (u_jobList s) (weightMax s) 0 0 0" by simp
  from exec_first[OF assms(2) this, of 0] obtain thrown t where
    1: "trace (snd (execLoop (selectLoop (u_jobList s) (weightMax s) 0 0 0) 0 0 s))
          = trace s @ Applied j thrown # t" by blast
  from worker_tail_trace[OF assms(1)] obtain t' where
    "trace (u_worker s) = trace s @ Applied j thrown # t @ t'" using 1 by auto
  then have "during s (u_worker s) = Applied j thrown # t @ t'" by (rule during_append)
  then show ?thesis by blast
qed

lemma fires_step:
  "fires c s \<Longrightarrow>
   (\<exists>h. step c s = u_worker (s\<lparr>frames := removeAll h (frames s)\<rparr>))
   \<or> (\<exists>h. step c s = u_worker (s\<lparr>timers := removeAll h (timers s)\<rparr>))"
  by (cases c) auto


subsection \<open>Ticks that halt\<close>

lemma ran_items: "ran t dn \<Longrightarrow> x \<in> set t \<Longrightarrow> job_item x"
  by (simp add: ran_def list_all_iff)

lemma tail_items: "list_all tail_item t \<Longrightarrow> x \<in> set t \<Longrightarrow> tail_item x"
  by (simp add: list_all_iff)

lemma notes_items: "only_notes name t \<Longrightarrow> x \<in> set t \<Longrightarrow> \<exists>l r. x = Notified name l r"
  by (simp add: only_notes_def)

lemma worker_errored:
  assumes "Applied j (Some e) \<in> set (during s (u_worker s))"
  shows "busy s \<and> (\<exists>rest. u_jobList (u_worker s) = j # rest) \<and> u_error (u_worker s) = Some e
       \<and> same_control s (u_worker s) \<and> u_interval (u_worker s) = u_interval s
       \<and> Emitted ''error'' \<in> set (during s (u_worker s))
       \<and> (\<exists>dn. u_jobList s = dn @ u_jobList (u_worker s))"
proof -
  have b: "busy s"
  proof (rule ccontr)
    assume nb: "\<not> busy s"
    from u_stop_trace[of s] obtain t where
      t: "trace (u_stop s) = trace s @ Emitted ''stop'' # t" "only_notes ''stop'' t" by blast
    have "during s (u_worker s) = Emitted ''stop'' # t"
      using nb during_append[OF t(1)] by (simp add: u_worker_def)
    then show False using assms notes_items[OF t(2)] by auto
  qed
  from u_worker_post[OF b] obtain dn t where
    tr: "trace (u_worker s) = trace s @ t"
    and jl: "u_jobList s = dn @ u_jobList (u_worker s)"
    and out: "tick_halted s (u_worker s) dn t \<or> tick_finished s (u_worker s) dn t"
    unfolding tick_post_def by blast
  have d: "during s (u_worker s) = t" using tr by (rule during_append)
  have ap: "Applied j (Some e) \<in> set t" using assms d by simp
  have nf: "\<not> tick_finished s (u_worker s) dn t"
  proof
    assume "tick_finished s (u_worker s) dn t"
    then obtain t1 t2 where h: "t = t1 @ t2" "ran t1 dn" "list_all tail_item t2"
      unfolding tick_finished_def by blast
    from ap h(1) have "Applied j (Some e) \<in> set t1 \<or> Applied j (Some e) \<in> set t2" by simp
    then show False using ran_items[OF h(2)] tail_items[OF h(3)] by fastforce
  qed
  have nb: "\<not> exec_broke s (u_worker s) dn t"
  proof
    assume "exec_broke s (u_worker s) dn t"
    then obtain t1 l t2 t3 where
      h: "t = t1 @ Notified ''job'' l JsFalse # t2 @ Emitted ''break'' # t3" "ran t1 dn"
         "only_notes ''job'' t2" "only_notes ''break'' t3"
      unfolding exec_broke_def by blast
    from ap h(1) have "Applied j (Some e) \<in> set t1 \<or> Applied j (Some e) \<in> set t2
        \<or> Applied j (Some e) \<in> set t3" by auto
    then show False using ran_items[OF h(2)] notes_items[OF h(3)] notes_items[OF h(4)] by fastforce
  qed
  from out nf nb have er: "exec_errored s (u_worker s) dn t" and sc: "same_control s (u_worker s)"
    by (auto simp: tick_halted_def)
  from er obtain j' e' rest t1 t2 where
    h: "t = t1 @ Applied j' (Some e') # Emitted ''error'' # t2" "ran t1 dn"
       "only_notes ''error'' t2" "u_jobList (u_worker s) = j' # rest"
       "u_error (u_worker s) = Some e'" "u_interval (u_worker s) = u_interval s"
    unfolding exec_errored_def by blast
  from ap h(1) have "Applied j (Some e) \<in> set t1 \<or> Applied j (Some e) = Applied j' (Some e')
      \<or> Applied j (Some e) \<in> set t2" by auto
  then have eq: "j = j' \<and> e = e'"
    using ran_items[OF h(2)] notes_items[OF h(3)] by fastforce
  have em: "Emitted ''error'' \<in> set t" using h(1) by simp
  from b eq h(4,5,6) sc em jl d show ?thesis by auto
qed

lemma worker_broke:
  assumes "Notified ''job'' l JsFalse \<in> set (during s (u_worker s))"
  shows "\<exists>dn. dn \<noteq> [] \<and> u_jobList s = dn @ u_jobList (u_worker s)
          \<and> calls (during s (u_worker s)) = map (\<lambda>j. (j, None)) dn
          \<and> u_jobsComplete (u_worker s) = u_jobsComplete s + length dn
          \<and> same_control s (u_worker s) \<and> u_interval (u_worker s) = -1
          \<and> u_error (u_worker s) = u_error s
          \<and> Emitted ''break'' \<in> set (during s (u_worker s))
          \<and> Emitted ''framerequest'' \<notin> set (during s (u_worker s))
          \<and> Emitted ''error'' \<notin> set (during s (u_worker s))"
proof -
  have b: "busy s"
  proof (rule ccontr)
    assume nb: "\<not> busy s"
    from u_stop_trace[of s] obtain t where
      t: "trace (u_stop s) = trace s @ Emitted ''stop'' # t" "only_notes ''stop'' t" by blast
    have "during s (u_worker s) = Emitted ''stop'' # t"
      using nb during_append[OF t(1)] by (simp add: u_worker_def)
    then show False using assms notes_items[OF t(2)] by auto
  qed
  from u_worker_post[OF b] obtain dn t where
    tr: "trace (u_worker s) = trace s @ t"
    and jl: "u_jobList s = dn @ u_jobList (u_worker s)"
    and out: "tick_halted s (u_worker s) dn t \<or> tick_finished s (u_worker s) dn t"
    unfolding tick_post_def by blast
  have d: "during s (u_worker s) = t" using tr by (rule during_append)
  have ap: "Notified ''job'' l JsFalse \<in> set t" using assms d by simp
  have nf: "\<not> tick_finished s (u_worker s) dn t"
  proof
    assume "tick_finished s (u_worker s) dn t"
    then obtain t1 t2 where h: "t = t1 @ t2" "ran t1 dn" "list_all tail_item t2"
      unfolding tick_finished_def by blast
    from ap h(1) have "Notified ''job'' l JsFalse \<in> set t1 \<or> Notified ''job'' l JsFalse \<in> set t2"
      by simp
    then show False using ran_items[OF h(2)] tail_items[OF h(3)] by fastforce
  qed
  have ne: "\<not> exec_errored s (u_worker s) dn t"
  proof
    assume "exec_errored s (u_worker s) dn t"
    then obtain j' e' t1 t2 where
      h: "t = t1 @ Applied j' (Some e') # Emitted ''error'' # t2" "ran t1 dn"
         "only_notes ''error'' t2"
      unfolding exec_errored_def by blast
    from ap h(1) have "Notified ''job'' l JsFalse \<in> set t1 \<or> Notified ''job'' l JsFalse \<in> set t2"
      by auto
    then show False using ran_items[OF h(2)] notes_items[OF h(3)] by fastforce
  qed
  from out nf ne have br: "exec_broke s (u_worker s) dn t" and sc: "same_control s (u_worker s)"
    and jc: "u_jobsComplete (u_worker s) = u_jobsComplete s + length dn"
    by (auto simp: tick_halted_def)
  from br obtain t1 l' t2 t3 where
    h: "t = t1 @ Notified ''job'' l' JsFalse # t2 @ Emitted ''break'' # t3" "ran t1 dn" "dn \<noteq> []"
       "only_notes ''job'' t2" "only_notes ''break'' t3"
       "u_error (u_worker s) = u_error s" "u_interval (u_worker s) = -1"
    unfolding exec_broke_def by blast
  have c: "calls t = map (\<lambda>j. (j, None)) dn"
    using h(1,2) notes_calls[OF h(4)] notes_calls[OF h(5)] by (simp add: ran_def)
  have em: "Emitted ''break'' \<in> set t" using h(1) by simp
  have nfr: "Emitted ''framerequest'' \<notin> set t"
  proof
    assume "Emitted ''framerequest'' \<in> set t"
    with h(1) have "Emitted ''framerequest'' \<in> set t1 \<or> Emitted ''framerequest'' \<in> set t2
        \<or> Emitted ''framerequest'' \<in> set t3" by auto
    then show False using ran_items[OF h(2)] notes_items[OF h(4)] notes_items[OF h(5)] by fastforce
  qed
  have ner: "Emitted ''error'' \<notin> set t"
  proof
    assume "Emitted ''error'' \<in> set t"
    with h(1) have "Emitted ''error'' \<in> set t1 \<or> Emitted ''error'' \<in> set t2
        \<or> Emitted ''error'' \<in> set t3" by auto
    then show False using ran_items[OF h(2)] notes_items[OF h(4)] notes_items[OF h(5)] by fastforce
  qed
  show ?thesis
    apply (rule exI[of _ dn])
    using h(3,6,7) jl c jc sc em nfr ner d by simp
qed

subsection \<open>Calls that are not ticks, and restarting\<close>

lemma calls_mem: "Applied j x \<in> set t \<Longrightarrow> (j, x) \<in> set (calls t)"
  by (induction t rule: calls.induct) auto

lemma start_trace:
  "start s = s \<or> (\<exists>t. trace (start s) = trace s @ Emitted ''start'' # t \<and> only_notes ''start'' t)"
proof (cases "busy s")
  case True
  then show ?thesis by (simp add: start_def)
next
  case False
  from u_emit_spec[of "''start''" "s\<lparr>listening := True, u_busy := True\<rparr>"] obtain d t where
    "snd (u_emit ''start'' (s\<lparr>listening := True, u_busy := True\<rparr>)) =
       s\<lparr>listening := True, u_busy := True, u_data := d, trace := trace s @ Emitted ''start'' # t\<rparr>"
    "only_notes ''start'' t" by auto
  then have "trace (start s) = trace s @ Emitted ''start'' # t \<and> only_notes ''start'' t"
    using False by (simp add: start_def)
  then show ?thesis by blast
qed

lemma start_calls: "calls (during s (start s)) = []"
proof -
  from start_trace[of s] consider "start s = s"
    | t where "trace (start s) = trace s @ Emitted ''start'' # t" "only_notes ''start'' t" by blast
  then show ?thesis
  proof cases
    case 1 then show ?thesis by (simp add: during_def)
  next
    case 2 then show ?thesis using during_append[OF 2(1)] notes_calls[OF 2(2)] by simp
  qed
qed

lemma step_quiet: "\<not> fires c s \<Longrightarrow> calls (during s (step c s)) = []"
proof (cases c)
  case Start
  then show ?thesis by (simp add: start_calls)
next
  case (AddEventListener name cb)
  then show ?thesis
    by (auto simp: addEventListener_def during_def Let_def split: option.splits)
next
  case (RemoveEventListener name cb)
  then show ?thesis
    by (auto simp: removeEventListener_def during_def split: option.splits)
next
  case (VisibilityChange v)
  then show ?thesis
    by (simp add: during_def u_handleVisibilityChange_def clearInterval_def cancelAnimationFrame_def)
qed (simp_all add: during_def append_def stop_def destroy_def set_workOnInactive_def Let_def)

lemma start_idle:
  assumes "\<not> busy s"
  shows "busy (start s) \<and> fires (pendingTick (start s)) (start s)
       \<and> Emitted ''start'' \<in> set (during s (start s))
       \<and> u_jobList (start s) = u_jobList s \<and> visible (start s) = visible s
       \<and> u_workOnInactive (start s) = u_workOnInactive s"
proof -
  let ?s1 = "snd (u_emit ''start'' (s\<lparr>listening := True, u_busy := True\<rparr>))"
  have st: "start s = u_continue ?s1" using assms by (simp add: start_def)
  have b: "busy (start s)" unfolding st by (simp add: busy_def)
  have f: "fires (pendingTick (u_continue ?s1)) (u_continue ?s1)"
    by (simp add: pendingTick_def u_continue_def requestAnimationFrame_def setTimeout_def
        browserActive_def)
  from start_trace[of s] b assms obtain t where
    "trace (start s) = trace s @ Emitted ''start'' # t" by auto
  then have "during s (start s) = Emitted ''start'' # t" by (rule during_append)
  then show ?thesis using b f unfolding st by simp
qed

lemma restart_first:
  assumes "u_jobList s = j # rest" "weight j \<le> 1" "\<not> busy s" "s2 = start s"
  shows "fires (pendingTick s2) s2
       \<and> (\<exists>thrown t. during s2 (step (pendingTick s2) s2) = Applied j thrown # t)"
proof -
  from start_idle[OF assms(3)] have
    b: "busy s2" and f: "fires (pendingTick s2) s2" and jl: "u_jobList s2 = j # rest"
    using assms(1,4) by simp_all
  from fires_step[OF f] obtain s' where
    s': "step (pendingTick s2) s2 = u_worker s'" "trace s' = trace s2" "u_jobList s' = u_jobList s2"
        "busy s' = busy s2" "weightMax s' = weightMax s2"
    by (auto simp: busy_def weightMax_def workOnInactive_def browserActive_def)
  have "weight j \<le> weightMax s'" using assms(2) weightMax_pos[of s'] by simp
  from worker_first[of s' j rest, OF _ _ this] obtain thrown t where
    "during s' (u_worker s') = Applied j thrown # t" using s' b jl by auto
  then have "during s2 (step (pendingTick s2) s2) = Applied j thrown # t"
    using s' by (simp add: during_def)
  with f show ?thesis by blast
qed

lemma fires_worker:
  assumes "fires c s"
  shows "\<exists>s'. step c s = u_worker s' \<and> trace s' = trace s \<and> u_jobList s' = u_jobList s
          \<and> nextFrame s' = nextFrame s \<and> nextTimer s' = nextTimer s
          \<and> set (frames s') \<subseteq> set (frames s) \<and> set (timers s') \<subseteq> set (timers s)"
proof (cases c)
  case (AnimationFrame h)
  then have "step c s = u_worker (s\<lparr>frames := removeAll h (frames s)\<rparr>)" using assms by simp
  then show ?thesis
    by (intro exI[of _ "s\<lparr>frames := removeAll h (frames s)\<rparr>"]) auto
next
  case (Timeout h)
  then have "step c s = u_worker (s\<lparr>timers := removeAll h (timers s)\<rparr>)" using assms by simp
  then show ?thesis
    by (intro exI[of _ "s\<lparr>timers := removeAll h (timers s)\<rparr>"]) auto
qed (use assms in simp_all)

section \<open>Verified properties\<close>



text \<open>
  C2: in every state of a run from a fresh or a cleared worker whose job list is not
  empty, the first loop of \<open>_worker\<close> selects at least one job, for the budget of a
  visible and of a hidden document alike; and when a pending tick of the running
  worker fires, the first thing it does is call the callable of the job at the head
  of the list.
\<close>

theorem forward_progress:
  assumes "s0 = u_init v d \<or> s0 = clear s1" and "s = run cs s0" and "u_jobList s \<noteq> []"
  shows "1 \<le> selectLoop (u_jobList s) (weightMax s) 0 0 0
       \<and> 1 \<le> selectLoop (u_jobList s) 1 0 0 0 \<and> 1 \<le> selectLoop (u_jobList s) 25 0 0 0
       \<and> (busy s \<and> fires c s \<longrightarrow>
            (\<exists>thrown t. during s (step c s) = Applied (hd (u_jobList s)) thrown # t))"
proof -
  have "wellformed s0" using assms(1) wellformed_init wellformed_clear by auto
  then have wf: "wellformed s" unfolding assms(2) by (rule wellformed_run)
  obtain j rest where jl: "u_jobList s = j # rest" using assms(3) by (cases "u_jobList s") auto
  have w: "weight j \<le> 1" using wf jl by (simp add: wellformed_def)
  have w': "weight j \<le> weightMax s" using w weightMax_pos[of s] by simp
  have 1: "1 \<le> selectLoop (u_jobList s) (weightMax s) 0 0 0"
    using jl w' by (intro selectLoop_first) simp_all
  have 2: "1 \<le> selectLoop (u_jobList s) 1 0 0 0"
    using jl w by (intro selectLoop_first) simp_all
  have 3: "1 \<le> selectLoop (u_jobList s) 25 0 0 0"
    using jl w by (intro selectLoop_first) simp_all
  have 4: "\<exists>thrown t. during s (step c s) = Applied (hd (u_jobList s)) thrown # t"
    if b: "busy s" and f: "fires c s"
  proof -
    from fires_step[OF f] obtain s' where
      s': "step c s = u_worker s'" "trace s' = trace s" "u_jobList s' = u_jobList s"
          "busy s' = busy s" "weightMax s' = weightMax s"
      by (auto simp: busy_def weightMax_def workOnInactive_def browserActive_def)
    from worker_first[of s' j rest] obtain thrown t where
      "during s' (u_worker s') = Applied j thrown # t" using s' b jl w' by auto
    then show ?thesis using s' jl by (auto simp: during_def)
  qed
  from 1 2 3 4 show ?thesis by blast
qed

theorem forward_progress_witness:
  "u_jobList (run halves fresh) \<noteq> [] \<and> busy (run halves fresh)
   \<and> fires (AnimationFrame 1) (run halves fresh)
   \<and> 1 \<le> selectLoop (u_jobList (run halves fresh)) (weightMax (run halves fresh)) 0 0 0
   \<and> (\<exists>thrown t. during (run halves fresh) (step (AnimationFrame 1) (run halves fresh))
          = Applied (hd (u_jobList (run halves fresh))) thrown # t)
   \<and> map jid (applied (during (run halves fresh) (step (AnimationFrame 1) (run halves fresh))))
       = [0, 1]"
proof -
  have h: "fresh = u_init True 0 \<or> fresh = clear undefined" by (simp add: fresh_def)
  have n: "u_jobList (run halves fresh) \<noteq> []" by (simp add: halves_def run_simps)
  have b: "busy (run halves fresh)" "fires (AnimationFrame 1) (run halves fresh)"
    by (simp_all add: halves_def run_simps)
  have a: "map jid (applied (during (run halves fresh) (step (AnimationFrame 1) (run halves fresh))))
       = [0, 1]"
    by (simp add: halves_def run_simps during_def applied_def)
  from forward_progress[of fresh True 0 undefined "run halves fresh" halves "AnimationFrame 1",
      OF h refl n] b n a show ?thesis by blast
qed





text \<open>
  C5, as stated, fails: after the only job of a started worker throws in the first
  tick, the error is recorded and the job is back in the list, but \<open>start()\<close> then
  requests no tick (no animation frame and no timer is pending) and calls nothing.
\<close>

theorem restart_by_start_counterexample:
  "u_error (step (AnimationFrame 1) (run crash fresh)) = Some (Thrown ''boom'')
   \<and> map jid (u_jobList (step (AnimationFrame 1) (run crash fresh))) = [0]
   \<and> busy (step (AnimationFrame 1) (run crash fresh))
   \<and> frames (start (step (AnimationFrame 1) (run crash fresh))) = []
   \<and> timers (start (step (AnimationFrame 1) (run crash fresh))) = []
   \<and> during (step (AnimationFrame 1) (run crash fresh))
        (start (step (AnimationFrame 1) (run crash fresh))) = []"
  by (simp add: crash_def run_simps during_def)

text \<open>
  C5, amended: in a run from a fresh or a cleared worker, if a job callable throws
  during a call, then afterwards that job is at the front of the list, the error is
  recorded, \<open>error\<close> was emitted, no tick was requested from the host, and the worker is
  still busy; after \<open>stop()\<close> followed by \<open>start()\<close> a tick is pending, and when it fires
  the first callable called is that of the same job.
\<close>

theorem throw_requeues:
  assumes "s0 = u_init v d \<or> s0 = clear s1" and "s = run cs s0"
    and "Applied j (Some e) \<in> set (during s (step c s))"
  shows "u_jobList (step c s) \<noteq> [] \<and> hd (u_jobList (step c s)) = j
       \<and> u_error (step c s) = Some e \<and> Emitted ''error'' \<in> set (during s (step c s))
       \<and> nextFrame (step c s) = nextFrame s \<and> nextTimer (step c s) = nextTimer s
       \<and> set (frames (step c s)) \<subseteq> set (frames s) \<and> set (timers (step c s)) \<subseteq> set (timers s)
       \<and> busy (step c s)
       \<and> fires (pendingTick (start (stop (step c s)))) (start (stop (step c s)))
       \<and> (\<exists>thrown t.
            during (start (stop (step c s)))
              (step (pendingTick (start (stop (step c s)))) (start (stop (step c s))))
            = Applied j thrown # t)"
proof -
  have "wellformed s0" using assms(1) wellformed_init wellformed_clear by auto
  then have "wellformed s" unfolding assms(2) by (rule wellformed_run)
  then have wf: "wellformed (step c s)" by (rule wellformed_step)
  have f: "fires c s"
  proof (rule ccontr)
    assume "\<not> fires c s"
    then have "calls (during s (step c s)) = []" by (rule step_quiet)
    then show False using calls_mem[OF assms(3)] by simp
  qed
  from fires_worker[OF f] obtain s' where
    s': "step c s = u_worker s'" "trace s' = trace s"
        "nextFrame s' = nextFrame s" "nextTimer s' = nextTimer s"
        "set (frames s') \<subseteq> set (frames s)" "set (timers s') \<subseteq> set (timers s)"
    by blast
  have d: "during s' (u_worker s') = during s (step c s)" using s'(1,2) by (simp add: during_def)
  from worker_errored[of j e s'] obtain rest where
    h: "busy s'" "u_jobList (u_worker s') = j # rest" "u_error (u_worker s') = Some e"
       "same_control s' (u_worker s')" "Emitted ''error'' \<in> set (during s' (u_worker s'))"
    using assms(3) d by auto
  have jl: "u_jobList (step c s) = j # rest" using h(2) s'(1) by simp
  have w: "weight j \<le> 1" using wf jl by (simp add: wellformed_def)
  have b: "busy (step c s)" using h(1,4) s'(1) by (simp add: busy_def same_control_def)
  have ns: "\<not> busy (stop (step c s))" by (simp add: stop_def busy_def)
  have jl': "u_jobList (stop (step c s)) = j # rest" using jl by (simp add: stop_def)
  note r = restart_first[OF jl' w ns refl]
  from jl h(3,4,5) d s' b r show ?thesis by (simp add: same_control_def)
qed

theorem throw_requeues_witness:
  "Applied (hd (u_jobList (run crash fresh))) (Some (Thrown ''boom''))
     \<in> set (during (run crash fresh) (step (AnimationFrame 1) (run crash fresh)))
   \<and> map jid (u_jobList (step (AnimationFrame 1) (run crash fresh))) = [0]
   \<and> hd (u_jobList (step (AnimationFrame 1) (run crash fresh))) = hd (u_jobList (run crash fresh))
   \<and> pendingTick (start (stop (step (AnimationFrame 1) (run crash fresh)))) = AnimationFrame 2
   \<and> map jid (applied
        (during (start (stop (step (AnimationFrame 1) (run crash fresh))))
           (step (AnimationFrame 2) (start (stop (step (AnimationFrame 1) (run crash fresh)))))))
       = [0]"
proof -
  have h: "fresh = u_init True 0 \<or> fresh = clear undefined" by (simp add: fresh_def)
  have 1: "Applied (hd (u_jobList (run crash fresh))) (Some (Thrown ''boom''))
     \<in> set (during (run crash fresh) (step (AnimationFrame 1) (run crash fresh)))"
    by (simp add: crash_def run_simps during_def)
  have 2: "map jid (u_jobList (step (AnimationFrame 1) (run crash fresh))) = [0]"
    "pendingTick (start (stop (step (AnimationFrame 1) (run crash fresh)))) = AnimationFrame 2"
    "map jid (applied
        (during (start (stop (step (AnimationFrame 1) (run crash fresh))))
           (step (AnimationFrame 2) (start (stop (step (AnimationFrame 1) (run crash fresh)))))))
       = [0]"
    by (simp_all add: crash_def run_simps during_def applied_def pendingTick_def)
  from throw_requeues[of fresh True 0 undefined "run crash fresh" crash
      "hd (u_jobList (run crash fresh))" "Thrown ''boom''" "AnimationFrame 1", OF h refl 1] 1 2
  show ?thesis by simp
qed

text \<open>
  C6, as stated, fails: with jobs of weights 1/2, 1/2 and 1/4 and a \<open>job\<close> listener that
  returns false, the first tick selects two jobs, calls the first, emits \<open>break\<close>, and
  the selected second job is still in the list.
\<close>

theorem break_loses_rest_counterexample:
  "selectLoop (u_jobList (run vetoed fresh)) (weightMax (run vetoed fresh)) 0 0 0 = 2
   \<and> map jid (applied (during (run vetoed fresh) (step (AnimationFrame 1) (run vetoed fresh)))) = [0]
   \<and> Emitted ''break'' \<in> set (during (run vetoed fresh) (step (AnimationFrame 1) (run vetoed fresh)))
   \<and> map jid (u_jobList (step (AnimationFrame 1) (run vetoed fresh))) = [1, 2]"
  by (simp add: vetoed_def halves_def run_simps during_def applied_def)

text \<open>
  C6, amended: if a \<open>job\<close> listener returns false during a call of \<open>_worker\<close>, then at
  least one job was called, every called job returned normally, the called jobs are
  exactly the jobs removed from the head of the list (the jobs of the batch not yet
  called stay queued, in order), \<open>jobsComplete\<close> grew by the number of called jobs,
  \<open>break\<close> was emitted and \<open>framerequest\<close> was not, the tick handle is \<open>-1\<close>, and no tick
  was requested from the host.
\<close>

theorem break_keeps_rest:
  assumes "Notified ''job'' l JsFalse \<in> set (during s (u_worker s))"
  shows "applied (during s (u_worker s)) \<noteq> []
       \<and> (\<forall>c \<in> set (calls (during s (u_worker s))). snd c = None)
       \<and> u_jobList s = applied (during s (u_worker s)) @ u_jobList (u_worker s)
       \<and> u_jobsComplete (u_worker s) = u_jobsComplete s + length (applied (during s (u_worker s)))
       \<and> Emitted ''break'' \<in> set (during s (u_worker s))
       \<and> Emitted ''framerequest'' \<notin> set (during s (u_worker s))
       \<and> u_interval (u_worker s) = -1
       \<and> frames (u_worker s) = frames s \<and> timers (u_worker s) = timers s
       \<and> nextFrame (u_worker s) = nextFrame s \<and> nextTimer (u_worker s) = nextTimer s"
proof -
  from worker_broke[OF assms] obtain dn where
    h: "dn \<noteq> []" "u_jobList s = dn @ u_jobList (u_worker s)"
       "calls (during s (u_worker s)) = map (\<lambda>j. (j, None)) dn"
       "u_jobsComplete (u_worker s) = u_jobsComplete s + length dn"
       "same_control s (u_worker s)" "u_interval (u_worker s) = -1"
       "Emitted ''break'' \<in> set (during s (u_worker s))"
       "Emitted ''framerequest'' \<notin> set (during s (u_worker s))"
    by blast
  have a: "applied (during s (u_worker s)) = dn" using h(3) by (simp add: applied_def comp_def)
  have n: "\<forall>c \<in> set (calls (during s (u_worker s))). snd c = None" using h(3) by auto
  from h a n show ?thesis by (simp add: same_control_def)
qed

theorem break_keeps_rest_witness:
  "Notified ''job'' 2 JsFalse \<in> set (during (run vetoed fresh) (u_worker (run vetoed fresh)))
   \<and> map jid (u_jobList (run vetoed fresh)) = [0, 1, 2]
   \<and> map jid (applied (during (run vetoed fresh) (u_worker (run vetoed fresh)))) = [0]
   \<and> map jid (u_jobList (u_worker (run vetoed fresh))) = [1, 2]
   \<and> u_jobsComplete (u_worker (run vetoed fresh)) = 1
   \<and> u_jobList (run vetoed fresh)
       = applied (during (run vetoed fresh) (u_worker (run vetoed fresh)))
         @ u_jobList (u_worker (run vetoed fresh))"
proof -
  have 1: "Notified ''job'' 2 JsFalse \<in> set (during (run vetoed fresh) (u_worker (run vetoed fresh)))"
    by (simp add: vetoed_def halves_def run_simps during_def)
  have 2: "map jid (u_jobList (run vetoed fresh)) = [0, 1, 2]"
    "map jid (applied (during (run vetoed fresh) (u_worker (run vetoed fresh)))) = [0]"
    "map jid (u_jobList (u_worker (run vetoed fresh))) = [1, 2]"
    "u_jobsComplete (u_worker (run vetoed fresh)) = 1"
    by (simp_all add: vetoed_def halves_def run_simps during_def applied_def)
  from break_keeps_rest[OF 1] 1 2 show ?thesis by blast
qed

text \<open>
  C7: in every state, \<open>clear()\<close> empties the job list, resets \<open>jobsComplete\<close> and
  \<open>jobsCount\<close> to 0, clears the busy flag, sets the tick handle to \<open>-1\<close> and cancels the
  handle it held, and records no effect: no signal is emitted and no listener is called.
\<close>

theorem clear_silent:
  "u_jobList (clear s) = [] \<and> u_jobsComplete (clear s) = 0 \<and> u_jobsCount (clear s) = 0
   \<and> \<not> busy (clear s) \<and> u_interval (clear s) = -1
   \<and> u_interval s \<notin> set (frames (clear s)) \<and> u_interval s \<notin> set (timers (clear s))
   \<and> trace (clear s) = trace s \<and> during s (clear s) = []"
  by (simp add: clear_def cancelAnimationFrame_def clearInterval_def busy_def during_def Let_def)

theorem clear_silent_witness:
  "frames (run (listened @ [Append returns None None None, Start]) fresh) = [1]
   \<and> u_jobsCount (run (listened @ [Append returns None None None, Start]) fresh) = 1
   \<and> trace (clear (run (listened @ [Append returns None None None, Start]) fresh))
        = [Emitted ''start'', Notified ''start'' 1 JsOther]
   \<and> frames (clear (run (listened @ [Append returns None None None, Start]) fresh)) = []
   \<and> u_jobsCount (clear (run (listened @ [Append returns None None None, Start]) fresh)) = 0"
  using clear_silent[of "run (listened @ [Append returns None None None, Start]) fresh"]
  by (simp add: listened_def fresh_def observer_def returns_def method_defs host_defs Let_def)






text \<open>
  C10: if a job callable throws during a call of \<open>_worker\<close>, then afterwards the busy
  flag is still set and no tick was requested from the host, so \<open>start()\<close> changes
  nothing; after \<open>stop()\<close> or \<open>clear()\<close> the flag is reset, and \<open>start()\<close> then sets it
  and requests a tick.
\<close>

theorem error_halt_keeps_busy:
  assumes "Applied j (Some e) \<in> set (during s (u_worker s))"
  shows "busy (u_worker s)
       \<and> frames (u_worker s) = frames s \<and> timers (u_worker s) = timers s
       \<and> nextFrame (u_worker s) = nextFrame s \<and> nextTimer (u_worker s) = nextTimer s
       \<and> start (u_worker s) = u_worker s
       \<and> \<not> busy (stop (u_worker s)) \<and> \<not> busy (clear (u_worker s))
       \<and> busy (start (stop (u_worker s)))
       \<and> fires (pendingTick (start (stop (u_worker s)))) (start (stop (u_worker s)))
       \<and> busy (start (clear (u_worker s)))
       \<and> fires (pendingTick (start (clear (u_worker s)))) (start (clear (u_worker s)))"
proof -
  from worker_errored[OF assms] have b: "busy s" and sc: "same_control s (u_worker s)" by simp_all
  have b': "busy (u_worker s)" using b sc by (simp add: busy_def same_control_def)
  have ns: "\<not> busy (stop (u_worker s))" by (simp add: stop_def busy_def)
  have nc: "\<not> busy (clear (u_worker s))" by (simp add: busy_def)
  from b' sc ns nc start_idle[OF ns] start_idle[OF nc] show ?thesis
    by (simp add: same_control_def start_def)
qed

theorem error_halt_keeps_busy_witness:
  "Applied (hd (u_jobList (run crash fresh))) (Some (Thrown ''boom''))
     \<in> set (during (run crash fresh) (u_worker (run crash fresh)))
   \<and> busy (u_worker (run crash fresh))
   \<and> nextFrame (u_worker (run crash fresh)) = 2
   \<and> nextFrame (start (u_worker (run crash fresh))) = 2
   \<and> nextFrame (start (stop (u_worker (run crash fresh)))) = 3
   \<and> start (u_worker (run crash fresh)) = u_worker (run crash fresh)"
proof -
  have 1: "Applied (hd (u_jobList (run crash fresh))) (Some (Thrown ''boom''))
     \<in> set (during (run crash fresh) (u_worker (run crash fresh)))"
    by (simp add: crash_def run_simps during_def)
  have 2: "nextFrame (u_worker (run crash fresh)) = 2"
    "nextFrame (start (u_worker (run crash fresh))) = 2"
    "nextFrame (start (stop (u_worker (run crash fresh)))) = 3"
    by (simp_all add: crash_def run_simps)
  from error_halt_keeps_busy[OF 1] 1 2 show ?thesis by simp
qed

end
